theory Spec2Isabelle
  imports Main "HOL-Library.Word" "HOL-Library.Signed_Division"
begin

section \<open>The traffic cellular automaton on a ring, partitioned over MPI ranks\<close>

text \<open>
  The development embeds \<^verbatim>\<open>CA/cellular_automaton_mpi.c\<close>, the simulation partitioned
  over MPI processes, and the \<^verbatim>\<open>update_step\<close> of the sequential program, which
  indexes the whole road modulo its length.

  A road buffer \<^verbatim>\<open>int8_t *road\<close> is a list of 8-bit words, an \<^verbatim>\<open>int *road\<close> a list of
  32-bit words. C tests a scalar for truth by comparing it with zero, so \<^verbatim>\<open>a && !b\<close>
  is \<open>a \<noteq> 0 \<and> \<not> b \<noteq> 0\<close>, and the \<^verbatim>\<open>int\<close> result of \<^verbatim>\<open>||\<close> stored into a cell is
  1 or 0 (\<open>of_bool\<close>). Loop counters and array indices, which never go below zero,
  are natural numbers; the \<^verbatim>\<open>int\<close> scalars of \<^verbatim>\<open>main\<close> (road length, iteration count,
  rank, size) are integers with C's truncating division. Reading or writing outside
  a buffer is undefined behaviour in C; the embedding returns \<open>None\<close> there instead of
  a value, and a loop is a recursive function on its counter.
\<close>

type_synonym int8 = "8 word"
type_synonym c_int = "32 word"

subsection \<open>The update kernel\<close>

text \<open>
  \<^verbatim>\<open>for (int i = 1; i <= local_n; i++)\<close> of \<^verbatim>\<open>update_step\<close>, with the loop variable,
  the destination buffer and the counter as arguments.
\<close>

function update_loop ::
  "int8 list \<Rightarrow> nat \<Rightarrow> nat \<Rightarrow> int8 list \<Rightarrow> nat \<Rightarrow> (int8 list \<times> nat) option" where
  "update_loop old_road local_n i new_road cars_moved =
     (if i \<le> local_n then
        (if 1 \<le> i \<and> i + 1 < length old_road \<and> i < length new_road then
           (let left_val = old_road ! (i - 1);
                curr_val = old_road ! i;
                right_val = old_road ! (i + 1);
                car_arriving = (left_val \<noteq> 0 \<and> \<not> curr_val \<noteq> 0);
                car_staying = (curr_val \<noteq> 0 \<and> right_val \<noteq> 0)
            in update_loop old_road local_n (i + 1)
                 (new_road[i := of_bool (car_arriving \<or> car_staying)])
                 (if curr_val \<noteq> 0 \<and> \<not> right_val \<noteq> 0 then cars_moved + 1 else cars_moved))
         else None)
      else Some (new_road, cars_moved))"
  by pat_completeness auto
termination
  by (relation "measure (\<lambda>(old_road, local_n, i, new_road, cars_moved). local_n + 1 - i)") auto

declare update_loop.simps [simp del]

definition update_step :: "int8 list \<Rightarrow> int8 list \<Rightarrow> nat \<Rightarrow> (int8 list \<times> nat) option" where
  "update_step old_road new_road local_n = update_loop old_road local_n 1 new_road 0"

text \<open>
  \<^verbatim>\<open>count_cars_local\<close>: the sum of the owned cells, each promoted to \<^verbatim>\<open>int\<close>
  (\<open>sint\<close>). The sum of at most \<open>local_n\<close> bytes stays inside \<^verbatim>\<open>int\<close>.
\<close>

function count_loop :: "int8 list \<Rightarrow> nat \<Rightarrow> nat \<Rightarrow> int \<Rightarrow> int option" where
  "count_loop road local_n i count =
     (if i \<le> local_n then
        (if i < length road then count_loop road local_n (i + 1) (count + sint (road ! i))
         else None)
      else Some count)"
  by pat_completeness auto
termination
  by (relation "measure (\<lambda>(road, local_n, i, count). local_n + 1 - i)") auto

declare count_loop.simps [simp del]

definition count_cars_local :: "int8 list \<Rightarrow> nat \<Rightarrow> int option" where
  "count_cars_local road local_n = count_loop road local_n 1 0"

text \<open>
  \<^verbatim>\<open>initialize_road_local\<close>: cell \<open>i\<close> becomes 1 when the \<open>i\<close>-th random draw falls
  below the density and 0 otherwise. The outcome of the comparisons is the argument
  \<open>occupied\<close>; the generator and the floating-point density are not embedded.
\<close>

function initialize_loop :: "int8 list \<Rightarrow> nat \<Rightarrow> nat \<Rightarrow> (nat \<Rightarrow> bool) \<Rightarrow> int8 list option" where
  "initialize_loop road local_n i occupied =
     (if i \<le> local_n then
        (if i < length road
         then initialize_loop (road[i := (if occupied i then 1 else 0)]) local_n (i + 1) occupied
         else None)
      else Some road)"
  by pat_completeness auto
termination
  by (relation "measure (\<lambda>(road, local_n, i, occupied). local_n + 1 - i)") auto

declare initialize_loop.simps [simp del]

definition initialize_road_local :: "int8 list \<Rightarrow> nat \<Rightarrow> (nat \<Rightarrow> bool) \<Rightarrow> int8 list option" where
  "initialize_road_local road local_n occupied = initialize_loop road local_n 1 occupied"

subsection \<open>The halo exchange of one process\<close>

text \<open>
  One \<^verbatim>\<open>MPI_Sendrecv\<close> call of \<^verbatim>\<open>exchange_borders\<close>: the index of the cell sent,
  the destination rank and tag, the index of the cell received into, the source rank
  and tag. Every call of the program transfers one \<^verbatim>\<open>MPI_INT8_T\<close> on
  \<^verbatim>\<open>MPI_COMM_WORLD\<close>, so count, type and communicator are not recorded.
\<close>

record sendrecv_call =
  sendbuf :: nat
  dest :: int
  sendtag :: int
  recvbuf :: nat
  source :: int
  recvtag :: int

text \<open>\<^verbatim>\<open>exchange_borders\<close> issues two calls, in this order.\<close>

definition exchange_borders :: "nat \<Rightarrow> int \<Rightarrow> int \<Rightarrow> sendrecv_call list" where
  "exchange_borders local_n left_neighbor right_neighbor =
     [\<lparr>sendbuf = 1, dest = left_neighbor, sendtag = 0,
       recvbuf = local_n + 1, source = right_neighbor, recvtag = 0\<rparr>,
      \<lparr>sendbuf = local_n, dest = right_neighbor, sendtag = 1,
       recvbuf = 0, source = left_neighbor, recvtag = 1\<rparr>]"

subsection \<open>Load balancing, ring topology and gather offsets\<close>

text \<open>
  The scalar computations of \<^verbatim>\<open>main\<close> and \<^verbatim>\<open>gather_and_print\<close> on C \<^verbatim>\<open>int\<close>s.
  C's \<^verbatim>\<open>/\<close> and \<^verbatim>\<open>%\<close> truncate towards zero: \<open>sdiv\<close> and \<open>smod\<close>. The values stay
  far below \<open>2 ^ 31\<close> (a buffer of \<open>local_n + 2\<close> bytes is allocated per process),
  so they are mathematical integers here.
\<close>

definition partition_local_n :: "int \<Rightarrow> int \<Rightarrow> int \<Rightarrow> int" where
  "partition_local_n n size' rank =
     (let local_n = n sdiv size';
          remainder = n smod size'
      in if rank < remainder then local_n + 1 else local_n)"

definition left_neighbor :: "int \<Rightarrow> int \<Rightarrow> int" where
  "left_neighbor rank size' = (rank - 1 + size') smod size'"

definition right_neighbor :: "int \<Rightarrow> int \<Rightarrow> int" where
  "right_neighbor rank size' = (rank + 1) smod size'"

text \<open>
  The loop of \<^verbatim>\<open>gather_and_print\<close> on rank 0 that fills \<^verbatim>\<open>recvcounts\<close> and
  \<^verbatim>\<open>displs\<close>, two arrays of \<^verbatim>\<open>size\<close> entries whose initial contents are
  whatever \<^verbatim>\<open>malloc\<close> returned.
\<close>

function gather_counts_loop ::
  "int \<Rightarrow> int \<Rightarrow> int \<Rightarrow> nat \<Rightarrow> int \<Rightarrow> int list \<Rightarrow> int list \<Rightarrow> (int list \<times> int list) option" where
  "gather_counts_loop n size' remainder i offset recvcounts displs =
     (if int i < size' then
        (if i < length recvcounts \<and> i < length displs then
           (let recvcounts' = recvcounts[i := n sdiv size' + (if int i < remainder then 1 else 0)];
                displs' = displs[i := offset]
            in gather_counts_loop n size' remainder (i + 1) (offset + recvcounts' ! i)
                 recvcounts' displs')
         else None)
      else Some (recvcounts, displs))"
  by pat_completeness auto
termination
  by (relation "measure (\<lambda>(n, size', remainder, i, offset, recvcounts, displs). nat size' - i)")
    auto

declare gather_counts_loop.simps [simp del]

definition gather_counts ::
  "int \<Rightarrow> int \<Rightarrow> int list \<Rightarrow> int list \<Rightarrow> (int list \<times> int list) option" where
  "gather_counts n size' recvcounts displs =
     gather_counts_loop n size' (n smod size') 0 0 recvcounts displs"

subsection \<open>The sequential reference\<close>

text \<open>
  The sequential \<^verbatim>\<open>update_step\<close> on a road of \<open>n\<close> \<^verbatim>\<open>int\<close> cells, with the
  periodic neighbours \<^verbatim>\<open>(i - 1 + n) % n\<close> and \<^verbatim>\<open>(i + 1) % n\<close>, and the loop of its
  \<^verbatim>\<open>main\<close> that calls it and swaps the two buffers.
\<close>

function update_loop_seq ::
  "c_int list \<Rightarrow> nat \<Rightarrow> nat \<Rightarrow> c_int list \<Rightarrow> nat \<Rightarrow> (c_int list \<times> nat) option" where
  "update_loop_seq old_road n i new_road cars_moved =
     (if i < n then
        (let left = nat ((int i - 1 + int n) smod int n);
             right = nat ((int i + 1) smod int n)
         in if i < length old_road \<and> left < length old_road \<and> right < length old_road \<and>
               i < length new_road then
              (let car_arriving = (old_road ! left \<noteq> 0 \<and> \<not> old_road ! i \<noteq> 0);
                   car_staying = (old_road ! i \<noteq> 0 \<and> old_road ! right \<noteq> 0)
               in update_loop_seq old_road n (i + 1)
                    (new_road[i := of_bool (car_arriving \<or> car_staying)])
                    (if old_road ! i \<noteq> 0 \<and> \<not> old_road ! right \<noteq> 0
                     then cars_moved + 1 else cars_moved))
            else None)
      else Some (new_road, cars_moved))"
  by pat_completeness auto
termination
  by (relation "measure (\<lambda>(old_road, n, i, new_road, cars_moved). n - i)") auto

declare update_loop_seq.simps [simp del]

definition update_step_seq :: "c_int list \<Rightarrow> c_int list \<Rightarrow> nat \<Rightarrow> (c_int list \<times> nat) option" where
  "update_step_seq old_road new_road n = update_loop_seq old_road n 0 new_road 0"

function main_loop_seq ::
  "int \<Rightarrow> int \<Rightarrow> nat \<Rightarrow> c_int list \<Rightarrow> c_int list \<Rightarrow> (c_int list \<times> c_int list) option" where
  "main_loop_seq t iterations n road_current road_next =
     (if t < iterations then
        (case update_step_seq road_current road_next n of
           None \<Rightarrow> None
         | Some (new_road, cars_moved) \<Rightarrow> main_loop_seq (t + 1) iterations n new_road road_current)
      else Some (road_current, road_next))"
  by pat_completeness auto
termination
  by (relation "measure (\<lambda>(t, iterations, n, road_current, road_next). nat (iterations - t))")
    auto

declare main_loop_seq.simps [simp del]

subsection \<open>One process\<close>

text \<open>
  The variables of \<^verbatim>\<open>main\<close> that change or that the kernels read: the number of
  owned cells and the two buffers of \<open>local_n + 2\<close> cells. The swap of the two
  pointers after \<^verbatim>\<open>update_step\<close> exchanges the roles of the buffers.
\<close>

record proc =
  local_n :: nat
  road_current :: "int8 list"
  road_next :: "int8 list"

definition update_and_swap :: "proc \<Rightarrow> proc option" where
  "update_and_swap p =
     (case update_step (road_current p) (road_next p) (local_n p) of
        None \<Rightarrow> None
      | Some (new_road, local_moved) \<Rightarrow>
          Some (p\<lparr>road_current := new_road, road_next := road_current p\<rparr>))"

text \<open>
  Load balancing, the two \<^verbatim>\<open>calloc\<close>s and the initialisation of \<^verbatim>\<open>main\<close> for one
  rank. A negative \<^verbatim>\<open>local_n\<close> (possible only for a negative road length) leaves no
  room for the two ghost cells and is outside the embedding.
\<close>

definition setup_proc :: "int \<Rightarrow> int \<Rightarrow> int \<Rightarrow> (nat \<Rightarrow> bool) \<Rightarrow> proc option" where
  "setup_proc n size' rank occupied =
     (let ln = partition_local_n n size' rank in
      if ln < 0 then None
      else (case initialize_road_local (replicate (nat ln + 2) 0) (nat ln) occupied of
              None \<Rightarrow> None
            | Some road \<Rightarrow>
                Some \<lparr>local_n = nat ln, road_current = road,
                      road_next = replicate (nat ln + 2) 0\<rparr>))"

subsection \<open>The group of processes\<close>

text \<open>
  The state of the group is the list of its processes, by rank. In one round every
  rank \<open>r\<close> executes the call \<open>calls ! r\<close> on its buffer \<open>roads ! r\<close>. Its receive
  from \<open>source\<close> with \<open>recvtag\<close> is matched by the call of that rank in the same round,
  which has to send to \<open>r\<close> with the same tag. \<^verbatim>\<open>MPI_Sendrecv\<close> requires the send and
  the receive buffer of a call to be disjoint; the result of a call that names one cell
  as both is undefined. A round with an unmatched receive, an index outside a buffer
  or such a call has no result. In every other round the cell a rank sends is not the
  one it receives into, so the cell received is the content of the sender's cell when
  the round starts. (When \<open>local_n = 0\<close> both calls of \<^verbatim>\<open>exchange_borders\<close> name one cell
  as send and as receive buffer: \<^verbatim>\<open>&road[1]\<close> and \<^verbatim>\<open>&road[local_n + 1]\<close> in the first,
  \<^verbatim>\<open>&road[local_n]\<close> and \<^verbatim>\<open>&road[0]\<close> in the second.)
\<close>

definition sendrecv_deliver :: "int8 list list \<Rightarrow> sendrecv_call list \<Rightarrow> nat \<Rightarrow> int8 list option" where
  "sendrecv_deliver roads calls r =
     (let c = calls ! r; s = nat (source c) in
      if 0 \<le> source c \<and> s < length roads \<and> s < length calls \<and>
         sendbuf c < length (roads ! r) \<and> recvbuf c < length (roads ! r) \<and>
         sendbuf c \<noteq> recvbuf c \<and>
         dest (calls ! s) = int r \<and> sendtag (calls ! s) = recvtag c \<and>
         sendbuf (calls ! s) < length (roads ! s)
      then Some ((roads ! r)[recvbuf c := roads ! s ! sendbuf (calls ! s)])
      else None)"

definition sendrecv_round :: "int8 list list \<Rightarrow> sendrecv_call list \<Rightarrow> int8 list list option" where
  "sendrecv_round roads calls =
     (let rs = map (sendrecv_deliver roads calls) [0..<length roads]
      in if length calls = length roads \<and> list_all (\<lambda>x. x \<noteq> None) rs
         then Some (map the rs) else None)"

fun sendrecv_rounds :: "int8 list list \<Rightarrow> sendrecv_call list list \<Rightarrow> int8 list list option" where
  "sendrecv_rounds roads [] = Some roads"
| "sendrecv_rounds roads (calls # rest) =
     (case sendrecv_round roads calls of
        None \<Rightarrow> None
      | Some roads' \<Rightarrow> sendrecv_rounds roads' rest)"

text \<open>
  The calls of every rank, with the neighbours \<^verbatim>\<open>main\<close> computed for it, and the
  two rounds they form: the first calls of all ranks, then the second calls.
\<close>

definition group_calls :: "proc list \<Rightarrow> sendrecv_call list list" where
  "group_calls ps =
     map (\<lambda>r. exchange_borders (local_n (ps ! r))
                (left_neighbor (int r) (int (length ps)))
                (right_neighbor (int r) (int (length ps))))
         [0..<length ps]"

definition exchange_all :: "proc list \<Rightarrow> proc list option" where
  "exchange_all ps =
     (case sendrecv_rounds (map road_current ps)
             [map (\<lambda>cs. cs ! 0) (group_calls ps), map (\<lambda>cs. cs ! 1) (group_calls ps)] of
        None \<Rightarrow> None
      | Some roads \<Rightarrow> Some (map (\<lambda>(p, road). p\<lparr>road_current := road\<rparr>) (zip ps roads)))"

text \<open>The body of the main loop, for all ranks: exchange, update, swap.\<close>

definition step :: "proc list \<Rightarrow> proc list option" where
  "step ps =
     (case exchange_all ps of
        None \<Rightarrow> None
      | Some ps' \<Rightarrow>
          (let rs = map update_and_swap ps'
           in if list_all (\<lambda>x. x \<noteq> None) rs then Some (map the rs) else None))"

function main_loop :: "int \<Rightarrow> int \<Rightarrow> proc list \<Rightarrow> proc list option" where
  "main_loop t iterations ps =
     (if t < iterations then
        (case step ps of
           None \<Rightarrow> None
         | Some ps' \<Rightarrow> main_loop (t + 1) iterations ps')
      else Some ps)"
  by pat_completeness auto
termination
  by (relation "measure (\<lambda>(t, iterations, ps). nat (iterations - t))") auto

declare main_loop.simps [simp del]

definition setup_group :: "int \<Rightarrow> int \<Rightarrow> (nat \<Rightarrow> nat \<Rightarrow> bool) \<Rightarrow> proc list option" where
  "setup_group n size' occupied =
     (let rs = map (\<lambda>r. setup_proc n size' (int r) (occupied r)) [0..<nat size']
      in if list_all (\<lambda>x. x \<noteq> None) rs then Some (map the rs) else None)"

text \<open>
  \<^verbatim>\<open>MPI_Allreduce\<close> with \<^verbatim>\<open>MPI_SUM\<close> over the local counts of the current buffers.
\<close>

definition total_cars :: "proc list \<Rightarrow> int option" where
  "total_cars ps =
     (let cs = map (\<lambda>p. count_cars_local (road_current p) (local_n p)) ps
      in if list_all (\<lambda>x. x \<noteq> None) cs then Some (sum_list (map the cs)) else None)"

text \<open>
  \<^verbatim>\<open>MPI_Gatherv\<close> at rank 0: the block sent by rank \<open>i\<close> is stored at \<^verbatim>\<open>displs[i]\<close> of
  \<^verbatim>\<open>full_road\<close>; a block longer than \<^verbatim>\<open>recvcounts[i]\<close> or reaching outside the buffer
  has no result. \<^verbatim>\<open>gather_and_print\<close> sends the owned cells \<^verbatim>\<open>&local_road[1]\<close>,
  \<open>local_n\<close> of them, and prints \<^verbatim>\<open>X\<close> for a non-zero cell.
\<close>

fun gatherv :: "int8 list \<Rightarrow> (int8 list \<times> int \<times> int) list \<Rightarrow> int8 list option" where
  "gatherv full_road [] = Some full_road"
| "gatherv full_road ((cells, recvcount, displ) # rest) =
     (if 0 \<le> displ \<and> int (length cells) \<le> recvcount \<and>
         nat displ + length cells \<le> length full_road
      then gatherv (take (nat displ) full_road @ cells @
                    drop (nat displ + length cells) full_road) rest
      else None)"

definition gather :: "int \<Rightarrow> proc list \<Rightarrow> int8 list \<Rightarrow> int8 list option" where
  "gather n ps full_road =
     (case gather_counts n (int (length ps)) (replicate (length ps) 0) (replicate (length ps) 0) of
        None \<Rightarrow> None
      | Some (recvcounts, displs) \<Rightarrow>
          if list_all (\<lambda>p. local_n p + 1 \<le> length (road_current p)) ps
          then gatherv full_road
                 (zip (map (\<lambda>p. take (local_n p) (drop 1 (road_current p))) ps)
                      (zip recvcounts displs))
          else None)"

definition print_road :: "int8 list \<Rightarrow> string" where
  "print_road full_road = map (\<lambda>c. if c \<noteq> 0 then CHR ''X'' else CHR ''.'') full_road"

subsection \<open>Runs from a given lattice\<close>

text \<open>
  To compare runs cell by cell the random draws are fixed by a lattice of \<open>n\<close> cells:
  rank \<open>r\<close> owns the contiguous range that starts after the cells of the lower ranks,
  so its \<open>i\<close>-th draw is the lattice cell at that offset plus \<open>i - 1\<close>. A partitioned
  run sets the group up, runs the main loop and gathers the owned cells at rank 0;
  a sequential run initialises the whole road from the same draws.
\<close>

definition lattice_draws :: "bool list \<Rightarrow> int \<Rightarrow> nat \<Rightarrow> nat \<Rightarrow> bool" where
  "lattice_draws cells size' r i =
     cells ! (nat (sum_list (map (\<lambda>k. partition_local_n (int (length cells)) size' (int k)) [0..<r]))
              + i - 1)"

definition partitioned_run :: "bool list \<Rightarrow> int \<Rightarrow> int \<Rightarrow> int8 list \<Rightarrow> int8 list option" where
  "partitioned_run cells size' iterations full_road =
     (case setup_group (int (length cells)) size' (lattice_draws cells size') of
        None \<Rightarrow> None
      | Some ps \<Rightarrow>
          (case main_loop 0 iterations ps of
             None \<Rightarrow> None
           | Some ps' \<Rightarrow> gather (int (length cells)) ps' full_road))"

definition sequential_run :: "bool list \<Rightarrow> int \<Rightarrow> c_int list \<Rightarrow> c_int list option" where
  "sequential_run cells iterations next_road =
     map_option fst
       (main_loop_seq 0 iterations (length cells) (map (\<lambda>b. if b then 1 else 0) cells) next_road)"

subsection \<open>The program\<close>

text \<open>
  What \<^verbatim>\<open>main\<close> of the partitioned program does, as seen from outside: the exit
  status, the collective calls and the outputs of rank 0 in program order, and the
  final state of the group. The arguments are the road length and the iteration
  count after \<^verbatim>\<open>atoi\<close>, the number of processes given by the launcher, the outcome of
  the random draws, whether every \<^verbatim>\<open>calloc\<close> succeeded and whether rank 0 could open
  the results file. The program checks neither the road length nor the iteration
  count; the only early exit is \<^verbatim>\<open>MPI_Abort(MPI_COMM_WORLD, 1)\<close> after a failed
  allocation, and a results file that cannot be opened costs a message on the error
  stream only. The density, a floating-point number, appears in the header line only
  and is left out.
\<close>

datatype event =
    Mpi_init
  | Mpi_abort int
  | Allreduce int
  | Print_header int int int int
  | Barrier
  | Print_results
  | Append_csv int int int
  | Csv_open_error
  | Mpi_finalize

definition main ::
  "int \<Rightarrow> int \<Rightarrow> int \<Rightarrow> (nat \<Rightarrow> nat \<Rightarrow> bool) \<Rightarrow> bool \<Rightarrow> bool \<Rightarrow>
   (int \<times> event list \<times> proc list) option" where
  "main n iterations size' occupied alloc_ok csv_ok =
     (if \<not> alloc_ok then Some (1, [Mpi_init, Mpi_abort 1], [])
      else
        (case setup_group n size' occupied of
           None \<Rightarrow> None
         | Some ps \<Rightarrow>
             (case total_cars ps of
                None \<Rightarrow> None
              | Some cars \<Rightarrow>
                  (case main_loop 0 iterations ps of
                     None \<Rightarrow> None
                   | Some ps' \<Rightarrow>
                       Some (0,
                             [Mpi_init, Allreduce cars,
                              Print_header size' n iterations cars,
                              Barrier, Barrier, Print_results,
                              (if csv_ok then Append_csv n iterations size'
                               else Csv_open_error),
                              Mpi_finalize],
                             ps')))))"

subsection \<open>Notions used in the proofs\<close>

definition next_cell :: "'a::len word \<Rightarrow> 'a word \<Rightarrow> 'a word \<Rightarrow> 'a word" where
  "next_cell l c r = of_bool ((l \<noteq> 0 \<and> c = 0) \<or> (c \<noteq> 0 \<and> r \<noteq> 0))"

definition leaves :: "int8 list \<Rightarrow> nat \<Rightarrow> bool" where
  "leaves road j = (road ! j \<noteq> 0 \<and> road ! (j + 1) = 0)"


definition count_of :: "int \<Rightarrow> int \<Rightarrow> int \<Rightarrow> nat \<Rightarrow> int" where
  "count_of n size' remainder j = n sdiv size' + (if int j < remainder then 1 else 0)"

text \<open>
  The neighbours of a rank as indices into the group, the cells a process owns, the
  lattice they form in rank order, and the processes whose buffers have the allocated
  length; in a populated group every process owns a cell.
\<close>

definition lnb :: "proc list \<Rightarrow> nat \<Rightarrow> nat" where
  "lnb ps r = nat (left_neighbor (int r) (int (length ps)))"

definition rnb :: "proc list \<Rightarrow> nat \<Rightarrow> nat" where
  "rnb ps r = nat (right_neighbor (int r) (int (length ps)))"

definition owned :: "proc \<Rightarrow> int8 list" where
  "owned p = take (local_n p) (drop 1 (road_current p))"

definition lattice :: "proc list \<Rightarrow> int8 list" where
  "lattice ps = concat (map owned ps)"

definition buffers_ok :: "proc list \<Rightarrow> bool" where
  "buffers_ok ps =
     (ps \<noteq> [] \<and>
      list_all (\<lambda>p. length (road_current p) = local_n p + 2 \<and>
                     length (road_next p) = local_n p + 2) ps)"

definition populated :: "proc list \<Rightarrow> bool" where
  "populated ps = (buffers_ok ps \<and> list_all (\<lambda>p. 1 \<le> local_n p) ps)"

text \<open>The buffer of rank \<open>r\<close> with both ghost slots refreshed from its neighbours.\<close>

definition refreshed :: "proc list \<Rightarrow> nat \<Rightarrow> int8 list" where
  "refreshed ps r =
     (road_current (ps ! r))
       [local_n (ps ! r) + 1 := road_current (ps ! rnb ps r) ! 1,
        0 := road_current (ps ! lnb ps r) ! local_n (ps ! lnb ps r)]"

text \<open>One synchronous step of the rule on a ring of cells.\<close>

definition ring_step :: "'a::len word list \<Rightarrow> 'a word list" where
  "ring_step g =
     map (\<lambda>i. next_cell (g ! ((i + length g - 1) mod length g)) (g ! i)
                         (g ! ((i + 1) mod length g)))
         [0..<length g]"

text \<open>
  The number of lattice cells owned by the ranks below \<open>r\<close>, and the destination
  buffer after the update kernel in closed form.
\<close>

definition offs :: "proc list \<Rightarrow> nat \<Rightarrow> nat" where
  "offs ps r = length (lattice (take r ps))"

definition kernel :: "int8 list \<Rightarrow> int8 list \<Rightarrow> nat \<Rightarrow> int8 list" where
  "kernel old new ln =
     map (\<lambda>j. if 1 \<le> j \<and> j \<le> ln
               then next_cell (old ! (j - 1)) (old ! j) (old ! (j + 1)) else new ! j)
         [0..<ln + 2]"

text \<open>A lattice whose cells are all 0 or 1, as the initialisation and the kernel write them.\<close>

definition binary :: "int8 list \<Rightarrow> bool" where
  "binary g = list_all (\<lambda>c. c = 0 \<or> c = 1) g"

section \<open>Sums over lists\<close>

lemma nat_sum_list:
  "(\<forall>x \<in> set xs. 0 \<le> f x) \<Longrightarrow> nat (sum_list (map f xs)) = sum_list (map (\<lambda>x. nat (f x)) xs)"
proof (induction xs)
  case Nil
  then show ?case by simp
next
  case (Cons a xs)
  have "0 \<le> sum_list (map f xs)"
    using Cons.prems by (intro sum_list_nonneg) auto
  with Cons show ?case by (simp add: nat_add_distrib)
qed

lemma int_sum_list: "int (sum_list (map f xs)) = sum_list (map (\<lambda>x. int (f x)) xs)"
  by (induction xs) simp_all

section \<open>Facts about the update kernel\<close>

lemma update_loop_frame:
  "update_loop old ln i new m = Some (new', m') \<Longrightarrow>
   length new' = length new \<and>
   (\<forall>j < length new. j < i \<or> ln < j \<longrightarrow> new' ! j = new ! j)"
proof (induction old ln i new m rule: update_loop.induct)
  case (1 old ln i new m)
  show ?case
  proof (cases "i \<le> ln")
    case False
    with "1.prems" show ?thesis by (simp add: update_loop.simps)
  next
    case True
    from True "1.prems" have ok: "1 \<le> i \<and> i + 1 < length old \<and> i < length new"
      by (subst (asm) update_loop.simps) (simp split: if_splits)
    define v :: int8 where
      "v = of_bool ((old ! (i - 1) \<noteq> 0 \<and> \<not> old ! i \<noteq> 0) \<or> (old ! i \<noteq> 0 \<and> old ! (i + 1) \<noteq> 0))"
    define m2 where "m2 = (if old ! i \<noteq> 0 \<and> \<not> old ! (i + 1) \<noteq> 0 then m + 1 else m)"
    from True ok "1.prems"
    have rec: "update_loop old ln (i + 1) (new[i := v]) m2 = Some (new', m')"
      by (subst (asm) update_loop.simps) (simp add: Let_def v_def m2_def)
    have "length new' = length (new[i := v]) \<and>
          (\<forall>j < length (new[i := v]). j < i + 1 \<or> ln < j \<longrightarrow> new' ! j = new[i := v] ! j)"
      using "1.IH" [OF True ok refl refl refl refl refl rec [unfolded v_def m2_def]]
      by (simp add: v_def)
    then show ?thesis using True by (auto simp: nth_list_update)
  qed
qed

lemma update_loop_result:
  "1 \<le> i \<Longrightarrow> i \<le> ln + 1 \<Longrightarrow> length old = ln + 2 \<Longrightarrow> length new = ln + 2 \<Longrightarrow>
   \<exists>new'. update_loop old ln i new m =
       Some (new', m + length (filter (leaves old) [i..<ln + 1])) \<and>
     length new' = ln + 2 \<and>
     (\<forall>j < ln + 2. new' ! j =
        (if i \<le> j \<and> j \<le> ln then next_cell (old ! (j - 1)) (old ! j) (old ! (j + 1))
         else new ! j))"
proof (induction old ln i new m rule: update_loop.induct)
  case (1 old ln i new m)
  show ?case
  proof (cases "i \<le> ln")
    case False
    with "1.prems" have "i = ln + 1" by simp
    then show ?thesis using "1.prems" by (auto simp add: update_loop.simps)
  next
    case True
    have ok: "1 \<le> i \<and> i + 1 < length old \<and> i < length new"
      using True "1.prems" by simp
    define v :: int8 where
      "v = of_bool ((old ! (i - 1) \<noteq> 0 \<and> \<not> old ! i \<noteq> 0) \<or> (old ! i \<noteq> 0 \<and> old ! (i + 1) \<noteq> 0))"
    define m2 where "m2 = (if old ! i \<noteq> 0 \<and> \<not> old ! (i + 1) \<noteq> 0 then m + 1 else m)"
    have unf: "update_loop old ln i new m = update_loop old ln (i + 1) (new[i := v]) m2"
      using True ok by (subst update_loop.simps) (simp add: Let_def v_def m2_def)
    have "\<exists>new'. update_loop old ln (i + 1) (new[i := v]) m2 =
       Some (new', m2 + length (filter (leaves old) [i + 1..<ln + 1])) \<and>
     length new' = ln + 2 \<and>
     (\<forall>j < ln + 2. new' ! j =
        (if i + 1 \<le> j \<and> j \<le> ln then next_cell (old ! (j - 1)) (old ! j) (old ! (j + 1))
         else new[i := v] ! j))"
      unfolding v_def m2_def
      by (rule "1.IH" [OF True ok refl refl refl refl refl]) (use True "1.prems" in simp_all)
    then obtain new' where
      r: "update_loop old ln (i + 1) (new[i := v]) m2 =
            Some (new', m2 + length (filter (leaves old) [i + 1..<ln + 1]))"
      and l: "length new' = ln + 2"
      and e: "\<forall>j < ln + 2. new' ! j =
        (if i + 1 \<le> j \<and> j \<le> ln then next_cell (old ! (j - 1)) (old ! j) (old ! (j + 1))
         else new[i := v] ! j)"
      by blast
    have cnt: "m2 + length (filter (leaves old) [i + 1..<ln + 1]) =
               m + length (filter (leaves old) [i..<ln + 1])"
    proof -
      have "[i..<ln + 1] = i # [i + 1..<ln + 1]"
        using True by (subst upt_rec) simp
      then show ?thesis by (simp add: m2_def leaves_def)
    qed
    have vv: "v = next_cell (old ! (i - 1)) (old ! i) (old ! (i + 1))"
      by (simp add: v_def next_cell_def)
    have "\<forall>j < ln + 2. new' ! j =
        (if i \<le> j \<and> j \<le> ln then next_cell (old ! (j - 1)) (old ! j) (old ! (j + 1))
         else new ! j)"
    proof (intro allI impI)
      fix j assume j: "j < ln + 2"
      show "new' ! j = (if i \<le> j \<and> j \<le> ln
              then next_cell (old ! (j - 1)) (old ! j) (old ! (j + 1)) else new ! j)"
      proof (cases "j = i")
        case True
        with e j ok vv show ?thesis using \<open>i \<le> ln\<close> by simp
      next
        case False
        with e j show ?thesis by auto
      qed
    qed
    with unf r l cnt show ?thesis by simp
  qed
qed

lemma update_step_result:
  assumes "length old = ln + 2" and "length new = ln + 2"
  shows "\<exists>new'. update_step old new ln =
       Some (new', length (filter (leaves old) [1..<ln + 1])) \<and>
     length new' = ln + 2 \<and>
     new' ! 0 = new ! 0 \<and> new' ! (ln + 1) = new ! (ln + 1) \<and>
     (\<forall>j. 1 \<le> j \<and> j \<le> ln \<longrightarrow>
        new' ! j = next_cell (old ! (j - 1)) (old ! j) (old ! (j + 1)))"
proof -
  from update_loop_result [of 1 ln old new 0] assms
  obtain new' where
    r: "update_loop old ln 1 new 0 = Some (new', length (filter (leaves old) [1..<ln + 1]))"
    and l: "length new' = ln + 2"
    and e: "\<forall>j < ln + 2. new' ! j =
        (if 1 \<le> j \<and> j \<le> ln then next_cell (old ! (j - 1)) (old ! j) (old ! (j + 1))
         else new ! j)"
    by auto
  from e have "new' ! 0 = new ! 0" by simp
  moreover from e have "new' ! (ln + 1) = new ! (ln + 1)" by simp
  moreover from e have "\<forall>j. 1 \<le> j \<and> j \<le> ln \<longrightarrow>
        new' ! j = next_cell (old ! (j - 1)) (old ! j) (old ! (j + 1))" by simp
  ultimately show ?thesis using r l by (simp add: update_step_def)
qed

section \<open>Facts about the partition and the ring\<close>

lemma smod_nonneg: "0 \<le> a \<Longrightarrow> 0 < b \<Longrightarrow> (a::int) smod b = a mod b"
  by (simp add: signed_modulo_int_def sgn_if)

lemma sdiv_nonneg: "0 \<le> a \<Longrightarrow> 0 < b \<Longrightarrow> (a::int) sdiv b = a div b"
  by (simp add: signed_divide_int_def sgn_if)

lemma partition_local_n_eq:
  "0 \<le> n \<Longrightarrow> 0 < size' \<Longrightarrow>
   partition_local_n n size' rank = n div size' + (if rank < n mod size' then 1 else 0)"
  by (simp add: partition_local_n_def Let_def smod_nonneg sdiv_nonneg)

lemma sum_partition:
  assumes "0 \<le> n" "0 < s"
  shows "(\<Sum>r = 0..<s. n div s + (if r < n mod s then 1 else 0)) = (n::int)"
proof -
  have m: "0 \<le> n mod s" "n mod s < s" using assms by simp_all
  have "(\<Sum>r \<in> {0..<s} \<inter> {r. r < n mod s}. 1::int) =
        (\<Sum>r = 0..<s. if r \<in> {r. r < n mod s} then 1 else 0)"
    by (rule sum.inter_restrict) simp
  moreover have "{0..<s} \<inter> {r. r < n mod s} = {0..<n mod s}" using m by auto
  ultimately have "(\<Sum>r = 0..<s. (if r < n mod s then 1 else 0 :: int)) = n mod s"
    using m by simp
  then show ?thesis using assms by (simp add: sum.distrib)
qed

lemma card_extra:
  assumes "0 \<le> n" "0 < s"
  shows "int (card {r. 0 \<le> r \<and> r < s \<and> n div s + (if r < n mod s then 1 else 0) = n div s + (1::int)}) = n mod s"
proof -
  have m: "0 \<le> n mod s" "n mod s < s" using assms by simp_all
  have "{r. 0 \<le> r \<and> r < s \<and> n div s + (if r < n mod s then 1 else 0) = n div s + (1::int)} = {0..<n mod s}"
    using m by (auto split: if_splits)
  then show ?thesis using m by simp
qed

lemma gather_counts_loop_result:
  "i \<le> nat size' \<Longrightarrow> length rc = nat size' \<Longrightarrow> length ds = nat size' \<Longrightarrow>
   \<exists>rc' ds'. gather_counts_loop n size' rem i off rc ds = Some (rc', ds') \<and>
     length rc' = nat size' \<and> length ds' = nat size' \<and>
     (\<forall>j < nat size'. rc' ! j = (if i \<le> j then count_of n size' rem j else rc ! j)) \<and>
     (\<forall>j < nat size'. ds' ! j =
        (if i \<le> j then off + (\<Sum>k = i..<j. count_of n size' rem k) else ds ! j))"
proof (induction n size' rem i off rc ds rule: gather_counts_loop.induct)
  case (1 n size' rem i off rc ds)
  show ?case
  proof (cases "int i < size'")
    case False
    with "1.prems" have "i = nat size'" by simp
    with False "1.prems" show ?thesis by (auto simp: gather_counts_loop.simps)
  next
    case True
    have ok: "i < length rc \<and> i < length ds" using True "1.prems" by simp
    define c where "c = count_of n size' rem i"
    define rc2 where "rc2 = rc[i := n sdiv size' + (if int i < rem then 1 else 0)]"
    define ds2 where "ds2 = ds[i := off]"
    have rc2i: "rc2 ! i = c" using ok by (simp add: rc2_def c_def count_of_def)
    have unf: "gather_counts_loop n size' rem i off rc ds =
               gather_counts_loop n size' rem (i + 1) (off + rc2 ! i) rc2 ds2"
      using True ok by (subst gather_counts_loop.simps) (simp add: Let_def rc2_def ds2_def)
    have "\<exists>rc' ds'. gather_counts_loop n size' rem (i + 1) (off + rc2 ! i) rc2 ds2 = Some (rc', ds') \<and>
     length rc' = nat size' \<and> length ds' = nat size' \<and>
     (\<forall>j < nat size'. rc' ! j = (if i + 1 \<le> j then count_of n size' rem j else rc2 ! j)) \<and>
     (\<forall>j < nat size'. ds' ! j =
        (if i + 1 \<le> j then off + rc2 ! i + (\<Sum>k = i + 1..<j. count_of n size' rem k) else ds2 ! j))"
      unfolding rc2_def ds2_def
      by (rule "1.IH" [OF True ok refl refl]) (use True "1.prems" in simp_all)
    then obtain rc' ds' where
      r: "gather_counts_loop n size' rem (i + 1) (off + rc2 ! i) rc2 ds2 = Some (rc', ds')"
      and l: "length rc' = nat size'" "length ds' = nat size'"
      and e1: "\<forall>j < nat size'. rc' ! j = (if i + 1 \<le> j then count_of n size' rem j else rc2 ! j)"
      and e2: "\<forall>j < nat size'. ds' ! j =
        (if i + 1 \<le> j then off + rc2 ! i + (\<Sum>k = i + 1..<j. count_of n size' rem k) else ds2 ! j)"
      by blast
    have g1: "\<forall>j < nat size'. rc' ! j = (if i \<le> j then count_of n size' rem j else rc ! j)"
    proof (intro allI impI)
      fix j assume j: "j < nat size'"
      show "rc' ! j = (if i \<le> j then count_of n size' rem j else rc ! j)"
      proof (cases "j = i")
        case True
        with e1 j rc2i show ?thesis by (simp add: c_def)
      next
        case False
        with e1 j show ?thesis by (auto simp: rc2_def)
      qed
    qed
    have g2: "\<forall>j < nat size'. ds' ! j =
        (if i \<le> j then off + (\<Sum>k = i..<j. count_of n size' rem k) else ds ! j)"
    proof (intro allI impI)
      fix j assume j: "j < nat size'"
      show "ds' ! j = (if i \<le> j then off + (\<Sum>k = i..<j. count_of n size' rem k) else ds ! j)"
      proof (cases "j = i")
        case True
        with e2 j ok show ?thesis by (simp add: ds2_def)
      next
        case False
        show ?thesis
        proof (cases "i < j")
          case True
          then have "(\<Sum>k = i..<j. count_of n size' rem k) =
                     c + (\<Sum>k = i + 1..<j. count_of n size' rem k)"
            by (simp add: sum.atLeast_Suc_lessThan c_def)
          with e2 j True rc2i show ?thesis by simp
        next
          case F2: False
          with False e2 j show ?thesis by (simp add: ds2_def)
        qed
      qed
    qed
    from unf r l g1 g2 show ?thesis by simp
  qed
qed

lemma gather_counts_result:
  assumes "0 \<le> n" "0 < size'" "length rc = nat size'" "length ds = nat size'"
  shows "\<exists>rc' ds'. gather_counts n size' rc ds = Some (rc', ds') \<and>
     rc' = map (\<lambda>i. partition_local_n n size' (int i)) [0..<nat size'] \<and>
     length ds' = nat size' \<and>
     (\<forall>i < nat size'. ds' ! i = sum_list (take i rc'))"
proof -
  from gather_counts_loop_result [of 0 size' rc ds n "n smod size'" 0] assms
  obtain rc' ds' where
    r: "gather_counts n size' rc ds = Some (rc', ds')"
    and l: "length rc' = nat size'" "length ds' = nat size'"
    and e1: "\<forall>j < nat size'. rc' ! j = count_of n size' (n smod size') j"
    and e2: "\<forall>j < nat size'. ds' ! j = (\<Sum>k = 0..<j. count_of n size' (n smod size') k)"
    by (auto simp: gather_counts_def)
  have rc: "rc' = map (count_of n size' (n smod size')) [0..<nat size']"
    using l e1 by (intro nth_equalityI) simp_all
  have c: "count_of n size' (n smod size') = (\<lambda>i. partition_local_n n size' (int i))"
    by (simp add: fun_eq_iff count_of_def partition_local_n_def Let_def)
  have "\<forall>i < nat size'. ds' ! i = sum_list (take i rc')"
  proof (intro allI impI)
    fix i assume i: "i < nat size'"
    have "take i rc' = map (count_of n size' (n smod size')) [0..<i]"
      using i by (simp add: rc take_map)
    then have "sum_list (take i rc') = (\<Sum>k = 0..<i. count_of n size' (n smod size') k)"
      by (simp add: interv_sum_list_conv_sum_set_nat)
    with e2 i show "ds' ! i = sum_list (take i rc')" by simp
  qed
  with r rc c l show ?thesis by simp
qed


lemma left_neighbor_eq:
  "0 \<le> rank \<Longrightarrow> rank < size' \<Longrightarrow>
   left_neighbor rank size' = (if rank = 0 then size' - 1 else rank - 1)"
proof -
  assume a: "0 \<le> rank" "rank < size'"
  then have "left_neighbor rank size' = (rank - 1 + size') mod size'"
    by (simp only: left_neighbor_def) (rule smod_nonneg, simp_all)
  also have "\<dots> = (if rank = 0 then size' - 1 else rank - 1)"
  proof (cases "rank = 0")
    case True
    with a show ?thesis by (simp add: zmod_minus1)
  next
    case False
    with a have "(rank - 1 + size') mod size' = (rank - 1) mod size'" by simp
    with False a show ?thesis by (simp add: mod_pos_pos_trivial)
  qed
  finally show ?thesis .
qed

lemma right_neighbor_eq:
  "0 \<le> rank \<Longrightarrow> rank < size' \<Longrightarrow>
   right_neighbor rank size' = (if rank = size' - 1 then 0 else rank + 1)"
proof -
  assume a: "0 \<le> rank" "rank < size'"
  then have "right_neighbor rank size' = (rank + 1) mod size'"
    by (simp only: right_neighbor_def) (rule smod_nonneg, simp_all)
  also have "\<dots> = (if rank = size' - 1 then 0 else rank + 1)"
  proof (cases "rank = size' - 1")
    case True
    then show ?thesis by simp
  next
    case False
    with a show ?thesis by (simp add: mod_pos_pos_trivial)
  qed
  finally show ?thesis .
qed


lemma left_neighbor_range:
  "0 \<le> rank \<Longrightarrow> rank < size' \<Longrightarrow>
   0 \<le> left_neighbor rank size' \<and> left_neighbor rank size' < size'"
  by (simp add: left_neighbor_eq)

lemma right_neighbor_range:
  "0 \<le> rank \<Longrightarrow> rank < size' \<Longrightarrow>
   0 \<le> right_neighbor rank size' \<and> right_neighbor rank size' < size'"
  by (simp add: right_neighbor_eq)

lemma right_left_neighbor:
  "0 \<le> rank \<Longrightarrow> rank < size' \<Longrightarrow> right_neighbor (left_neighbor rank size') size' = rank"
  by (simp add: left_neighbor_eq right_neighbor_eq)

lemma left_right_neighbor:
  "0 \<le> rank \<Longrightarrow> rank < size' \<Longrightarrow> left_neighbor (right_neighbor rank size') size' = rank"
  by (simp add: left_neighbor_eq right_neighbor_eq)

section \<open>Facts about the halo exchange\<close>

lemma lnb_eq: "r < length ps \<Longrightarrow> lnb ps r = (if r = 0 then length ps - 1 else r - 1)"
  by (simp add: lnb_def left_neighbor_eq nat_diff_distrib')

lemma rnb_eq: "r < length ps \<Longrightarrow> rnb ps r = (if r = length ps - 1 then 0 else r + 1)"
  by (auto simp add: rnb_def right_neighbor_eq nat_add_distrib)

lemma lnb_less: "r < length ps \<Longrightarrow> lnb ps r < length ps"
  by (auto simp: lnb_eq)

lemma rnb_less: "r < length ps \<Longrightarrow> rnb ps r < length ps"
  by (auto simp: rnb_eq)

lemma int_lnb: "r < length ps \<Longrightarrow> int (lnb ps r) = left_neighbor (int r) (int (length ps))"
  using left_neighbor_range [of "int r" "int (length ps)"] by (simp add: lnb_def)

lemma int_rnb: "r < length ps \<Longrightarrow> int (rnb ps r) = right_neighbor (int r) (int (length ps))"
  using right_neighbor_range [of "int r" "int (length ps)"] by (simp add: rnb_def)

lemma sendrecv_round_Some:
  assumes "length calls = length roads"
    and "\<And>r. r < length roads \<Longrightarrow> sendrecv_deliver roads calls r = Some (f r)"
  shows "sendrecv_round roads calls = Some (map f [0..<length roads])"
proof -
  have "map (sendrecv_deliver roads calls) [0..<length roads] = map (\<lambda>r. Some (f r)) [0..<length roads]"
    using assms(2) by simp
  then show ?thesis using assms(1)
    by (simp add: sendrecv_round_def Let_def list_all_iff comp_def)
qed

lemma buffers_okD:
  "buffers_ok ps \<Longrightarrow> r < length ps \<Longrightarrow>
   length (road_current (ps ! r)) = local_n (ps ! r) + 2 \<and>
   length (road_next (ps ! r)) = local_n (ps ! r) + 2"
  by (simp add: buffers_ok_def list_all_length)

lemma populatedD:
  "populated ps \<Longrightarrow> r < length ps \<Longrightarrow>
   1 \<le> local_n (ps ! r) \<and> length (road_current (ps ! r)) = local_n (ps ! r) + 2 \<and>
   length (road_next (ps ! r)) = local_n (ps ! r) + 2"
  by (simp add: populated_def buffers_ok_def list_all_length)

lemma populated_buffers_ok: "populated ps \<Longrightarrow> buffers_ok ps"
  by (simp add: populated_def)

lemma round0:
  assumes len: "length roads = length ps"
    and fit: "\<And>r. r < length ps \<Longrightarrow> length (roads ! r) = local_n (ps ! r) + 2"
    and pos: "\<And>r. r < length ps \<Longrightarrow> 1 \<le> local_n (ps ! r)"
  shows "sendrecv_round roads (map (\<lambda>cs. cs ! 0) (group_calls ps)) =
         Some (map (\<lambda>r. (roads ! r)[local_n (ps ! r) + 1 := roads ! rnb ps r ! 1]) [0..<length ps])"
proof -
  let ?calls = "map (\<lambda>cs. cs ! 0) (group_calls ps)"
  have lc: "length ?calls = length roads" by (simp add: group_calls_def len)
  have "sendrecv_deliver roads ?calls r =
        Some ((roads ! r)[local_n (ps ! r) + 1 := roads ! rnb ps r ! 1])"
    if r: "r < length roads" for r
  proof -
    from r have r': "r < length ps" by (simp add: len)
    have s: "rnb ps r < length ps" using r' by (rule rnb_less)
    have c: "?calls ! r = \<lparr>sendbuf = 1, dest = left_neighbor (int r) (int (length ps)), sendtag = 0,
               recvbuf = local_n (ps ! r) + 1, source = right_neighbor (int r) (int (length ps)),
               recvtag = 0\<rparr>"
      using r' by (simp add: group_calls_def exchange_borders_def)
    have cs: "?calls ! rnb ps r = \<lparr>sendbuf = 1, dest = left_neighbor (int (rnb ps r)) (int (length ps)),
               sendtag = 0, recvbuf = local_n (ps ! rnb ps r) + 1,
               source = right_neighbor (int (rnb ps r)) (int (length ps)), recvtag = 0\<rparr>"
      using s by (simp add: group_calls_def exchange_borders_def)
    have src: "0 \<le> right_neighbor (int r) (int (length ps))"
      using right_neighbor_range [of "int r" "int (length ps)"] r' by simp
    have bk: "left_neighbor (int (rnb ps r)) (int (length ps)) = int r"
      using r' by (simp add: int_rnb left_right_neighbor)
    show ?thesis
      unfolding sendrecv_deliver_def Let_def c
      using r' s src bk fit [OF r'] fit [OF s] cs len pos [OF r']
      by (simp add: rnb_def [symmetric] group_calls_def)
  qed
  from sendrecv_round_Some [OF lc this] show ?thesis by (simp add: len)
qed

lemma round1:
  assumes len: "length roads = length ps"
    and fit: "\<And>r. r < length ps \<Longrightarrow> length (roads ! r) = local_n (ps ! r) + 2"
    and pos: "\<And>r. r < length ps \<Longrightarrow> 1 \<le> local_n (ps ! r)"
  shows "sendrecv_round roads (map (\<lambda>cs. cs ! 1) (group_calls ps)) =
         Some (map (\<lambda>r. (roads ! r)[0 := roads ! lnb ps r ! local_n (ps ! lnb ps r)]) [0..<length ps])"
proof -
  let ?calls = "map (\<lambda>cs. cs ! 1) (group_calls ps)"
  have lc: "length ?calls = length roads" by (simp add: group_calls_def len)
  have "sendrecv_deliver roads ?calls r =
        Some ((roads ! r)[0 := roads ! lnb ps r ! local_n (ps ! lnb ps r)])"
    if r: "r < length roads" for r
  proof -
    from r have r': "r < length ps" by (simp add: len)
    have s: "lnb ps r < length ps" using r' by (rule lnb_less)
    have c: "?calls ! r = \<lparr>sendbuf = local_n (ps ! r), dest = right_neighbor (int r) (int (length ps)),
               sendtag = 1, recvbuf = 0, source = left_neighbor (int r) (int (length ps)),
               recvtag = 1\<rparr>"
      using r' by (simp add: group_calls_def exchange_borders_def)
    have cs: "?calls ! lnb ps r = \<lparr>sendbuf = local_n (ps ! lnb ps r),
               dest = right_neighbor (int (lnb ps r)) (int (length ps)),
               sendtag = 1, recvbuf = 0,
               source = left_neighbor (int (lnb ps r)) (int (length ps)), recvtag = 1\<rparr>"
      using s by (simp add: group_calls_def exchange_borders_def)
    have src: "0 \<le> left_neighbor (int r) (int (length ps))"
      using left_neighbor_range [of "int r" "int (length ps)"] r' by simp
    have bk: "right_neighbor (int (lnb ps r)) (int (length ps)) = int r"
      using r' by (simp add: int_lnb right_left_neighbor)
    show ?thesis
      unfolding sendrecv_deliver_def Let_def c
      using r' s src bk fit [OF r'] fit [OF s] cs len pos [OF r']
      by (simp add: lnb_def [symmetric] group_calls_def)
  qed
  from sendrecv_round_Some [OF lc this] show ?thesis by (simp add: len)
qed

lemma two_rounds:
  assumes len: "length roads = length ps"
    and fit: "\<And>r. r < length ps \<Longrightarrow> length (roads ! r) = local_n (ps ! r) + 2"
    and pos: "\<And>r. r < length ps \<Longrightarrow> 1 \<le> local_n (ps ! r)"
  shows "sendrecv_rounds roads
           [map (\<lambda>cs. cs ! 0) (group_calls ps), map (\<lambda>cs. cs ! 1) (group_calls ps)] =
         Some (map (\<lambda>r. (roads ! r)[local_n (ps ! r) + 1 := roads ! rnb ps r ! 1,
                                   0 := roads ! lnb ps r ! local_n (ps ! lnb ps r)])
                   [0..<length ps])"
    and "sendrecv_rounds roads
           [map (\<lambda>cs. cs ! 1) (group_calls ps), map (\<lambda>cs. cs ! 0) (group_calls ps)] =
         Some (map (\<lambda>r. (roads ! r)[local_n (ps ! r) + 1 := roads ! rnb ps r ! 1,
                                   0 := roads ! lnb ps r ! local_n (ps ! lnb ps r)])
                   [0..<length ps])"
proof -
  let ?a = "map (\<lambda>r. (roads ! r)[local_n (ps ! r) + 1 := roads ! rnb ps r ! 1]) [0..<length ps]"
  let ?b = "map (\<lambda>r. (roads ! r)[0 := roads ! lnb ps r ! local_n (ps ! lnb ps r)]) [0..<length ps]"
  have la: "length ?a = length ps" and lb: "length ?b = length ps" by simp_all
  have fa: "length (?a ! r) = local_n (ps ! r) + 2" if "r < length ps" for r
    using that fit by simp
  have fb: "length (?b ! r) = local_n (ps ! r) + 2" if "r < length ps" for r
    using that fit by simp
  have "map (\<lambda>r. (?a ! r)[0 := ?a ! lnb ps r ! local_n (ps ! lnb ps r)]) [0..<length ps] =
        map (\<lambda>r. (roads ! r)[local_n (ps ! r) + 1 := roads ! rnb ps r ! 1,
                             0 := roads ! lnb ps r ! local_n (ps ! lnb ps r)]) [0..<length ps]"
    using fit by (simp add: lnb_less)
  with round0 [OF len fit pos] round1 [OF la fa pos]
  show "sendrecv_rounds roads
           [map (\<lambda>cs. cs ! 0) (group_calls ps), map (\<lambda>cs. cs ! 1) (group_calls ps)] =
         Some (map (\<lambda>r. (roads ! r)[local_n (ps ! r) + 1 := roads ! rnb ps r ! 1,
                                   0 := roads ! lnb ps r ! local_n (ps ! lnb ps r)])
                   [0..<length ps])"
    by simp
  have "map (\<lambda>r. (?b ! r)[local_n (ps ! r) + 1 := ?b ! rnb ps r ! 1]) [0..<length ps] =
        map (\<lambda>r. (roads ! r)[local_n (ps ! r) + 1 := roads ! rnb ps r ! 1,
                             0 := roads ! lnb ps r ! local_n (ps ! lnb ps r)]) [0..<length ps]"
    using fit by (simp add: rnb_less list_update_swap)
  with round1 [OF len fit pos] round0 [OF lb fb pos]
  show "sendrecv_rounds roads
           [map (\<lambda>cs. cs ! 1) (group_calls ps), map (\<lambda>cs. cs ! 0) (group_calls ps)] =
         Some (map (\<lambda>r. (roads ! r)[local_n (ps ! r) + 1 := roads ! rnb ps r ! 1,
                                   0 := roads ! lnb ps r ! local_n (ps ! lnb ps r)])
                   [0..<length ps])"
    by simp
qed

lemma exchange_all_refreshed:
  assumes pop: "populated ps"
  shows "exchange_all ps =
         Some (map (\<lambda>r. (ps ! r)\<lparr>road_current := refreshed ps r\<rparr>) [0..<length ps])"
proof -
  have len: "length (map road_current ps) = length ps" by simp
  have fit: "length (map road_current ps ! r) = local_n (ps ! r) + 2" if "r < length ps" for r
    using populatedD [OF pop that] that by simp
  have pos: "1 \<le> local_n (ps ! r)" if "r < length ps" for r
    using populatedD [OF pop that] by simp
  have z: "map (\<lambda>(p, road). p\<lparr>road_current := road\<rparr>) (zip ps (map f [0..<length ps])) =
        map (\<lambda>r. (ps ! r)\<lparr>road_current := f r\<rparr>) [0..<length ps]" for f
    by (rule nth_equalityI) simp_all
  have "map (\<lambda>r. (map road_current ps ! r)
                 [local_n (ps ! r) + 1 := map road_current ps ! rnb ps r ! 1,
                  0 := map road_current ps ! lnb ps r ! local_n (ps ! lnb ps r)]) [0..<length ps] =
        map (refreshed ps) [0..<length ps]"
    by (simp add: refreshed_def lnb_less rnb_less)
  with two_rounds(1) [OF len fit pos] show ?thesis
    by (simp add: exchange_all_def z)
qed

section \<open>Facts about one step of the group\<close>

lemma update_step_kernel:
  assumes "length old = ln + 2" and "length new = ln + 2"
  shows "update_step old new ln = Some (kernel old new ln, length (filter (leaves old) [1..<ln + 1]))"
proof -
  from update_loop_result [of 1 ln old new 0] assms
  obtain new' where
    r: "update_loop old ln 1 new 0 = Some (new', length (filter (leaves old) [1..<ln + 1]))"
    and l: "length new' = ln + 2"
    and e: "\<forall>j < ln + 2. new' ! j =
        (if 1 \<le> j \<and> j \<le> ln then next_cell (old ! (j - 1)) (old ! j) (old ! (j + 1))
         else new ! j)"
    by auto
  have "new' = kernel old new ln"
    unfolding kernel_def using l e by (intro nth_equalityI) (simp_all del: upt_Suc)
  with r show ?thesis by (simp add: update_step_def)
qed

lemma those_map_Some:
  "(\<And>x. x \<in> set xs \<Longrightarrow> f x = Some (g x)) \<Longrightarrow>
   (let rs = map f xs in if list_all (\<lambda>x. x \<noteq> None) rs then Some (map the rs) else None) =
   Some (map g xs)"
  by (simp add: Let_def list_all_iff)

lemma step_kernel:
  assumes pop: "populated ps"
  shows "step ps =
     Some (map (\<lambda>r. \<lparr>local_n = local_n (ps ! r),
                      road_current = kernel (refreshed ps r) (road_next (ps ! r)) (local_n (ps ! r)),
                      road_next = refreshed ps r\<rparr>) [0..<length ps])"
proof -
  let ?ex = "map (\<lambda>r. (ps ! r)\<lparr>road_current := refreshed ps r\<rparr>) [0..<length ps]"
  let ?g = "\<lambda>r. \<lparr>local_n = local_n (ps ! r),
                      road_current = kernel (refreshed ps r) (road_next (ps ! r)) (local_n (ps ! r)),
                      road_next = refreshed ps r\<rparr>"
  have up: "update_and_swap ((ps ! r)\<lparr>road_current := refreshed ps r\<rparr>) = Some (?g r)"
    if r: "r < length ps" for r
  proof -
    have l: "length (refreshed ps r) = local_n (ps ! r) + 2"
      "length (road_next (ps ! r)) = local_n (ps ! r) + 2"
      using populatedD [OF pop r] by (simp_all add: refreshed_def)
    show ?thesis
      by (simp add: update_and_swap_def update_step_kernel [OF l])
  qed
  have "(let rs = map update_and_swap ?ex
         in if list_all (\<lambda>x. x \<noteq> None) rs then Some (map the rs) else None) =
        Some (map ?g [0..<length ps])"
    using up by (simp add: Let_def list_all_iff comp_def)
  then show ?thesis
    by (simp add: step_def exchange_all_refreshed [OF pop])
qed

lemma step_buffers_ok:
  assumes pop: "populated ps" and st: "step ps = Some ps'"
  shows "buffers_ok ps' \<and> length ps' = length ps \<and> map local_n ps' = map local_n ps"
proof -
  have ok: "buffers_ok ps" using pop by (rule populated_buffers_ok)
  from st step_kernel [OF pop]
  have e: "ps' = map (\<lambda>r. \<lparr>local_n = local_n (ps ! r),
                      road_current = kernel (refreshed ps r) (road_next (ps ! r)) (local_n (ps ! r)),
                      road_next = refreshed ps r\<rparr>) [0..<length ps]" by simp
  have len: "length ps' = length ps" by (simp add: e)
  have ne: "ps \<noteq> []" using ok by (simp add: buffers_ok_def)
  have "buffers_ok ps'"
    unfolding buffers_ok_def list_all_length
    using ne len buffers_okD [OF ok] by (auto simp: e kernel_def refreshed_def simp del: upt_Suc)
  moreover have "map local_n ps' = map local_n ps"
    by (rule nth_equalityI) (simp_all add: e)
  ultimately show ?thesis using len by simp
qed

lemma concat_nth_offset:
  assumes "r < length xss" and "j < length (xss ! r)"
  shows "concat xss ! (length (concat (take r xss)) + j) = xss ! r ! j"
proof -
  have "xss = take r xss @ xss ! r # drop (Suc r) xss"
    using assms(1) by (rule id_take_nth_drop)
  then have "concat xss = concat (take r xss) @ xss ! r @ concat (drop (Suc r) xss)"
    by (metis concat.simps(2) concat_append)
  then show ?thesis using assms(2) by (simp add: nth_append)
qed

lemma concat_index_decomp:
  "i < length (concat xss) \<Longrightarrow>
   \<exists>r j. r < length xss \<and> j < length (xss ! r) \<and> i = length (concat (take r xss)) + j"
proof (induction xss arbitrary: i)
  case Nil
  then show ?case by simp
next
  case (Cons xs xss)
  show ?case
  proof (cases "i < length xs")
    case True
    then have "0 < length (xs # xss) \<and> i < length ((xs # xss) ! 0) \<and>
               i = length (concat (take 0 (xs # xss))) + i" by simp
    then show ?thesis by blast
  next
    case False
    with Cons.prems have "i - length xs < length (concat xss)" by simp
    from Cons.IH [OF this] obtain r j where
      "r < length xss" "j < length (xss ! r)" "i - length xs = length (concat (take r xss)) + j"
      by blast
    with False have "Suc r < length (xs # xss) \<and> j < length ((xs # xss) ! Suc r) \<and>
               i = length (concat (take (Suc r) (xs # xss))) + j" by simp
    then show ?thesis by blast
  qed
qed

section \<open>The lattice held by the group\<close>

lemma length_owned:
  "length (road_current p) = local_n p + 2 \<Longrightarrow> length (owned p) = local_n p"
  by (simp add: owned_def)

lemma owned_nth:
  "length (road_current p) = local_n p + 2 \<Longrightarrow> j < local_n p \<Longrightarrow>
   owned p ! j = road_current p ! (j + 1)"
  by (simp add: owned_def)

lemma offs_0: "offs ps 0 = 0"
  by (simp add: offs_def lattice_def)

lemma offs_Suc:
  assumes "buffers_ok ps" and "r < length ps"
  shows "offs ps (Suc r) = offs ps r + local_n (ps ! r)"
proof -
  have "take (Suc r) ps = take r ps @ [ps ! r]"
    using assms(2) by (rule take_Suc_conv_app_nth)
  then show ?thesis
    using buffers_okD [OF assms] by (simp add: offs_def lattice_def length_owned)
qed

lemma offs_all: "offs ps (length ps) = length (lattice ps)"
  by (simp add: offs_def)

lemma offs_mono:
  assumes "buffers_ok ps"
  shows "r \<le> r' \<Longrightarrow> r' \<le> length ps \<Longrightarrow> offs ps r \<le> offs ps r'"
proof (induction r')
  case 0
  then show ?case by simp
next
  case (Suc r')
  show ?case
  proof (cases "r = Suc r'")
    case True
    then show ?thesis by simp
  next
    case False
    with Suc.prems have "r \<le> r'" "r' < length ps" by simp_all
    with Suc.IH offs_Suc [OF assms, of r'] show ?thesis by simp
  qed
qed

lemma lattice_nth:
  assumes ok: "buffers_ok ps" and r: "r < length ps" and j: "j < local_n (ps ! r)"
  shows "lattice ps ! (offs ps r + j) = road_current (ps ! r) ! (j + 1)"
proof -
  have l: "length (road_current (ps ! r)) = local_n (ps ! r) + 2"
    using buffers_okD [OF ok r] by simp
  have "concat (map owned ps) ! (length (concat (take r (map owned ps))) + j) =
        map owned ps ! r ! j"
    using r j l by (intro concat_nth_offset) (simp_all add: length_owned)
  then show ?thesis using r j l
    by (simp add: lattice_def offs_def take_map owned_nth)
qed

lemma lattice_index:
  assumes ok: "buffers_ok ps" and i: "i < length (lattice ps)"
  shows "\<exists>r j. r < length ps \<and> j < local_n (ps ! r) \<and> i = offs ps r + j"
proof -
  from concat_index_decomp [of i "map owned ps"] i
  obtain r j where r: "r < length ps" and j: "j < length (map owned ps ! r)"
    and e: "i = length (concat (take r (map owned ps))) + j"
    by (auto simp: lattice_def)
  have "j < local_n (ps ! r)"
    using j r buffers_okD [OF ok r] by (simp add: length_owned)
  moreover have "i = offs ps r + j"
    using e by (simp add: offs_def lattice_def take_map)
  ultimately show ?thesis using r by blast
qed

lemma offs_bound:
  assumes ok: "buffers_ok ps" and r: "r < length ps"
  shows "offs ps r + local_n (ps ! r) \<le> length (lattice ps)"
proof -
  have "offs ps (Suc r) \<le> offs ps (length ps)"
    using r by (intro offs_mono [OF ok]) simp_all
  then show ?thesis by (simp add: offs_Suc [OF ok r] offs_all)
qed

lemma ring_index: "a < N \<Longrightarrow> b = a + N \<Longrightarrow> b mod N = (a::nat)"
  by simp

lemma ring_index2: "a < N \<Longrightarrow> b = a + N + N \<Longrightarrow> b mod N = (a::nat)"
  by simp

text \<open>After the exchange, cell k of rank r is the lattice cell k - 1 places after its offset, on the ring.\<close>

lemma refreshed_view:
  assumes pop: "populated ps" and r: "r < length ps" and k: "k \<le> local_n (ps ! r) + 1"
  shows "refreshed ps r ! k =
         lattice ps ! ((offs ps r + k + length (lattice ps) - 1) mod length (lattice ps))"
proof -
  let ?N = "length (lattice ps)"
  have ok: "buffers_ok ps" using pop by (simp add: populated_def)
  note d = populatedD [OF pop r]
  have bound: "offs ps r + local_n (ps ! r) \<le> ?N" by (rule offs_bound [OF ok r])
  have Npos: "0 < ?N" using bound d by linarith
  consider (left) "k = 0" | (mid) "1 \<le> k" "k \<le> local_n (ps ! r)" | (right) "k = local_n (ps ! r) + 1"
    using k by linarith
  then show ?thesis
  proof cases
    case mid
    have "refreshed ps r ! k = road_current (ps ! r) ! k"
      using mid d by (simp add: refreshed_def)
    also have "\<dots> = lattice ps ! (offs ps r + (k - 1))"
      using lattice_nth [OF ok r, of "k - 1"] mid by simp
    also have "offs ps r + (k - 1) = (offs ps r + k + ?N - 1) mod ?N"
    proof -
      have "offs ps r + (k - 1) < ?N" using mid bound by linarith
      moreover have "offs ps r + k + ?N - 1 = (offs ps r + (k - 1)) + ?N" using mid by linarith
      ultimately have "(offs ps r + k + ?N - 1) mod ?N = offs ps r + (k - 1)" by (rule ring_index)
      then show ?thesis by (simp only:)
    qed
    finally show ?thesis .
  next
    case left
    let ?l = "lnb ps r"
    have l: "?l < length ps" using r by (rule lnb_less)
    note dl = populatedD [OF pop l]
    have "refreshed ps r ! k = road_current (ps ! ?l) ! local_n (ps ! ?l)"
      using left d by (simp add: refreshed_def)
    also have "\<dots> = lattice ps ! (offs ps ?l + (local_n (ps ! ?l) - 1))"
      using lattice_nth [OF ok l, of "local_n (ps ! ?l) - 1"] dl by simp
    also have "offs ps ?l + (local_n (ps ! ?l) - 1) = (offs ps r + k + ?N - 1) mod ?N"
    proof (cases "r = 0")
      case True
      then have "?l = length ps - 1" using r by (simp add: lnb_eq)
      then have "Suc ?l = length ps" using r by simp
      then have "offs ps ?l + local_n (ps ! ?l) = ?N"
        using offs_Suc [OF ok l] offs_all [of ps] by simp
      then have a: "offs ps ?l + (local_n (ps ! ?l) - 1) = ?N - 1" using dl by linarith
      have "offs ps r = 0" using True by (simp add: offs_0)
      then have "offs ps r + k + ?N - 1 = ?N - 1" using left by linarith
      moreover have "?N - 1 < ?N" using Npos by linarith
      ultimately have "(offs ps r + k + ?N - 1) mod ?N = ?N - 1" by (simp only: mod_less)
      with a show ?thesis by (simp only:)
    next
      case False
      then have "Suc ?l = r" using r by (simp add: lnb_eq)
      then have e: "offs ps ?l + local_n (ps ! ?l) = offs ps r"
        using offs_Suc [OF ok l] by simp
      then have a: "offs ps ?l + (local_n (ps ! ?l) - 1) = offs ps r - 1" using dl by linarith
      have p: "1 \<le> offs ps r" using e dl by linarith
      have "offs ps r - 1 < ?N" using bound p by linarith
      moreover have "offs ps r + k + ?N - 1 = (offs ps r - 1) + ?N"
        using left p by linarith
      ultimately have "(offs ps r + k + ?N - 1) mod ?N = offs ps r - 1" by (rule ring_index)
      with a show ?thesis by (simp only:)
    qed
    finally show ?thesis .
  next
    case right
    let ?s = "rnb ps r"
    have s: "?s < length ps" using r by (rule rnb_less)
    note ds = populatedD [OF pop s]
    have "refreshed ps r ! k = road_current (ps ! ?s) ! 1"
      using right d by (simp add: refreshed_def)
    also have "\<dots> = lattice ps ! (offs ps ?s + 0)"
      using lattice_nth [OF ok s, of 0] ds by simp
    also have "offs ps ?s + 0 = (offs ps r + k + ?N - 1) mod ?N"
    proof (cases "r = length ps - 1")
      case True
      then have "?s = 0" using r by (simp add: rnb_eq)
      moreover have "Suc r = length ps" using True r by simp
      then have "offs ps r + local_n (ps ! r) = ?N"
        using offs_Suc [OF ok r] offs_all [of ps] by simp
      then have "offs ps r + k + ?N - 1 = 0 + ?N + ?N" using right by linarith
      with Npos have "(offs ps r + k + ?N - 1) mod ?N = 0" by (rule ring_index2)
      ultimately show ?thesis by (simp only: offs_0 add_0_right)
    next
      case False
      then have e: "?s = Suc r" using r by (simp add: rnb_eq)
      then have o: "offs ps ?s = offs ps r + local_n (ps ! r)"
        using offs_Suc [OF ok r] by simp
      have "offs ps ?s + local_n (ps ! ?s) \<le> ?N" by (rule offs_bound [OF ok s])
      then have "offs ps ?s < ?N" using ds by linarith
      moreover have "offs ps r + k + ?N - 1 = offs ps ?s + ?N" using right o by linarith
      ultimately have "(offs ps r + k + ?N - 1) mod ?N = offs ps ?s" by (rule ring_index)
      then show ?thesis by (simp only: add_0_right)
    qed
    finally show ?thesis .
  qed
qed


lemma length_lattice:
  "list_all (\<lambda>p. length (road_current p) = local_n p + 2) ps \<Longrightarrow>
   length (lattice ps) = sum_list (map local_n ps)"
  by (induction ps) (simp_all add: lattice_def length_owned)

lemma buffers_ok_lengths:
  "buffers_ok ps \<Longrightarrow> list_all (\<lambda>p. length (road_current p) = local_n p + 2) (take r ps)"
  by (auto simp: buffers_ok_def list_all_iff dest: in_set_takeD)

lemma length_lattice_ok: "buffers_ok ps \<Longrightarrow> length (lattice ps) = sum_list (map local_n ps)"
  by (rule length_lattice) (simp add: buffers_ok_def list_all_iff)

lemma offs_sum:
  "buffers_ok ps \<Longrightarrow> offs ps r = sum_list (take r (map local_n ps))"
  by (simp add: offs_def length_lattice [OF buffers_ok_lengths] take_map)

lemma populated_step:
  assumes pop: "populated ps" and st: "step ps = Some ps'"
  shows "populated ps'"
proof -
  have ok: "buffers_ok ps" using pop by (simp add: populated_def)
  from step_buffers_ok [OF pop st]
  have ok': "buffers_ok ps'" and len: "length ps' = length ps"
    and ln: "map local_n ps' = map local_n ps" by simp_all
  have "local_n (ps' ! r) = local_n (ps ! r)" if "r < length ps" for r
    using that len nth_map [of r ps' local_n] nth_map [of r ps local_n] ln by simp
  then have "list_all (\<lambda>p. 1 \<le> local_n p) ps'"
    using pop len by (simp add: populated_def list_all_length)
  with ok' show ?thesis by (simp add: populated_def)
qed

lemma step_lattice:
  assumes pop: "populated ps" and st: "step ps = Some ps'"
  shows "lattice ps' = ring_step (lattice ps)"
proof (rule nth_equalityI)
  let ?N = "length (lattice ps)"
  have ok: "buffers_ok ps" using pop by (simp add: populated_def)
  from step_buffers_ok [OF pop st]
  have ok': "buffers_ok ps'" and len: "length ps' = length ps"
    and ln: "map local_n ps' = map local_n ps" by simp_all
  have e: "ps' = map (\<lambda>r. \<lparr>local_n = local_n (ps ! r),
                      road_current = kernel (refreshed ps r) (road_next (ps ! r)) (local_n (ps ! r)),
                      road_next = refreshed ps r\<rparr>) [0..<length ps]"
    using st step_kernel [OF pop] by simp
  have N: "length (lattice ps') = ?N"
    by (simp only: length_lattice_ok [OF ok'] length_lattice_ok [OF ok] ln)
  show "length (lattice ps') = length (ring_step (lattice ps))"
    using N by (simp add: ring_step_def)
  fix i assume "i < length (lattice ps')"
  then have i: "i < ?N" using N by simp
  from lattice_index [OF ok i] obtain r j where
    r: "r < length ps" and j: "j < local_n (ps ! r)" and ij: "i = offs ps r + j" by blast
  have o: "offs ps' r = offs ps r"
    using offs_sum [OF ok'] offs_sum [OF ok] ln by simp
  have r': "r < length ps'" using r len by simp
  have lr: "local_n (ps' ! r) = local_n (ps ! r)" using r by (simp add: e)
  have "lattice ps' ! i = road_current (ps' ! r) ! (j + 1)"
    using lattice_nth [OF ok' r', of j] j lr o ij by simp
  also have "\<dots> = kernel (refreshed ps r) (road_next (ps ! r)) (local_n (ps ! r)) ! (j + 1)"
    using r by (simp add: e)
  also have "\<dots> = next_cell (refreshed ps r ! j) (refreshed ps r ! (j + 1)) (refreshed ps r ! (j + 2))"
    using j by (simp add: kernel_def del: upt_Suc)
  also have "refreshed ps r ! j = lattice ps ! ((i + ?N - 1) mod ?N)"
    using refreshed_view [OF pop r, of j] j ij by simp
  also have "refreshed ps r ! (j + 1) = lattice ps ! i"
  proof -
    have "(offs ps r + (j + 1) + ?N - 1) mod ?N = i"
      using i by (intro ring_index) (simp_all add: ij)
    then show ?thesis using refreshed_view [OF pop r, of "j + 1"] j by simp
  qed
  also have "refreshed ps r ! (j + 2) = lattice ps ! ((i + 1) mod ?N)"
  proof -
    have "offs ps r + (j + 2) + ?N - 1 = (i + 1) + ?N" by (simp add: ij)
    then have "(offs ps r + (j + 2) + ?N - 1) mod ?N = (i + 1) mod ?N"
      by (simp only: mod_add_self2)
    then show ?thesis using refreshed_view [OF pop r, of "j + 2"] j by simp
  qed
  finally show "lattice ps' ! i = ring_step (lattice ps) ! i"
    using i by (simp add: ring_step_def del: upt_Suc)
qed

lemma main_loop_lattice:
  "populated ps \<Longrightarrow>
   \<exists>ps'. main_loop t iterations ps = Some ps' \<and> populated ps' \<and>
     map local_n ps' = map local_n ps \<and>
     lattice ps' = (ring_step ^^ nat (iterations - t)) (lattice ps)"
proof (induction t iterations ps rule: main_loop.induct)
  case (1 t iterations ps)
  show ?case
  proof (cases "t < iterations")
    case False
    with "1.prems" show ?thesis by (simp add: main_loop.simps)
  next
    case True
    have ok: "buffers_ok ps" using "1.prems" by (simp add: populated_def)
    from step_kernel [OF "1.prems"] obtain ps1 where st: "step ps = Some ps1" by blast
    have pop1: "populated ps1" by (rule populated_step [OF "1.prems" st])
    from "1.IH" [OF True st pop1] obtain ps' where
      m: "main_loop (t + 1) iterations ps1 = Some ps'" and p: "populated ps'"
      and l: "map local_n ps' = map local_n ps1"
      and g: "lattice ps' = (ring_step ^^ nat (iterations - (t + 1))) (lattice ps1)"
      by blast
    have "nat (iterations - t) = Suc (nat (iterations - (t + 1)))" using True by simp
    then have "(ring_step ^^ nat (iterations - t)) (lattice ps) =
               (ring_step ^^ nat (iterations - (t + 1))) (ring_step (lattice ps))"
      by (simp only: funpow_Suc_right o_apply)
    with g step_lattice [OF "1.prems" st]
    have "lattice ps' = (ring_step ^^ nat (iterations - t)) (lattice ps)" by simp
    moreover have "main_loop t iterations ps = Some ps'"
      using True st m by (subst main_loop.simps) simp
    moreover have "map local_n ps' = map local_n ps"
      using l step_buffers_ok [OF "1.prems" st] by simp
    ultimately show ?thesis using p by blast
  qed
qed

section \<open>Facts about the set-up of the group\<close>

lemma initialize_loop_result:
  "1 \<le> i \<Longrightarrow> i \<le> ln + 1 \<Longrightarrow> length road = ln + 2 \<Longrightarrow>
   initialize_loop road ln i occ =
     Some (map (\<lambda>j. if i \<le> j \<and> j \<le> ln then (if occ j then 1 else 0) else road ! j) [0..<ln + 2])"
proof (induction road ln i occ rule: initialize_loop.induct)
  case (1 road ln i occ)
  show ?case
  proof (cases "i \<le> ln")
    case False
    then have "initialize_loop road ln i occ = Some road"
      by (subst initialize_loop.simps) simp
    moreover have "road = map (\<lambda>j. if i \<le> j \<and> j \<le> ln then (if occ j then 1 else 0) else road ! j)
                            [0..<ln + 2]"
      using False "1.prems" by (intro nth_equalityI) (auto simp del: upt_Suc)
    ultimately show ?thesis by (simp only:)
  next
    case True
    let ?v = "if occ i then 1 else 0 :: int8"
    have ok: "i < length road" using True "1.prems" by simp
    have "initialize_loop road ln i occ = initialize_loop (road[i := ?v]) ln (i + 1) occ"
      using True ok by (subst initialize_loop.simps) simp
    also have "\<dots> = Some (map (\<lambda>j. if i + 1 \<le> j \<and> j \<le> ln then (if occ j then 1 else 0)
                                     else road[i := ?v] ! j) [0..<ln + 2])"
      by (rule "1.IH" [OF True ok]) (use True "1.prems" in simp_all)
    also have "map (\<lambda>j. if i + 1 \<le> j \<and> j \<le> ln then (if occ j then 1 else 0)
                          else road[i := ?v] ! j) [0..<ln + 2] =
               map (\<lambda>j. if i \<le> j \<and> j \<le> ln then (if occ j then 1 else 0) else road ! j) [0..<ln + 2]"
      using True ok "1.prems" by (intro nth_equalityI) (auto simp: nth_list_update simp del: upt_Suc)
    finally show ?thesis .
  qed
qed

lemma setup_proc_result:
  assumes "0 \<le> partition_local_n n size' rank"
  shows "setup_proc n size' rank occ =
     Some \<lparr>local_n = nat (partition_local_n n size' rank),
           road_current = map (\<lambda>j. if 1 \<le> j \<and> j \<le> nat (partition_local_n n size' rank)
                                    then (if occ j then 1 else 0) else 0)
                              [0..<nat (partition_local_n n size' rank) + 2],
           road_next = replicate (nat (partition_local_n n size' rank) + 2) 0\<rparr>"
proof -
  let ?ln = "nat (partition_local_n n size' rank)"
  have "initialize_road_local (replicate (?ln + 2) 0) ?ln occ =
        Some (map (\<lambda>j. if 1 \<le> j \<and> j \<le> ?ln then (if occ j then 1 else 0)
                        else replicate (?ln + 2) 0 ! j) [0..<?ln + 2])"
    unfolding initialize_road_local_def by (rule initialize_loop_result) simp_all
  also have "map (\<lambda>j. if 1 \<le> j \<and> j \<le> ?ln then (if occ j then 1 else 0)
                        else replicate (?ln + 2) 0 ! j) [0..<?ln + 2] =
             map (\<lambda>j. if 1 \<le> j \<and> j \<le> ?ln then (if occ j then 1 else 0) else (0::int8)) [0..<?ln + 2]"
    by (intro nth_equalityI) (simp_all del: upt_Suc replicate_Suc)
  finally show ?thesis using assms by (simp add: setup_proc_def Let_def del: upt_Suc replicate_Suc)
qed

lemma setup_group_result:
  assumes n: "0 \<le> n" and s: "0 < size'"
  shows "setup_group n size' occupied =
     Some (map (\<lambda>r. \<lparr>local_n = nat (partition_local_n n size' (int r)),
           road_current = map (\<lambda>j. if 1 \<le> j \<and> j \<le> nat (partition_local_n n size' (int r))
                                    then (if occupied r j then 1 else 0) else 0)
                              [0..<nat (partition_local_n n size' (int r)) + 2],
           road_next = replicate (nat (partition_local_n n size' (int r)) + 2) 0\<rparr>)
        [0..<nat size'])"
proof -
  have "0 \<le> partition_local_n n size' rank" for rank
    using n s by (simp add: partition_local_n_eq pos_imp_zdiv_nonneg_iff)
  then have "setup_proc n size' (int r) (occupied r) = Some \<lparr>local_n = nat (partition_local_n n size' (int r)),
           road_current = map (\<lambda>j. if 1 \<le> j \<and> j \<le> nat (partition_local_n n size' (int r))
                                    then (if occupied r j then 1 else 0) else 0)
                              [0..<nat (partition_local_n n size' (int r)) + 2],
           road_next = replicate (nat (partition_local_n n size' (int r)) + 2) 0\<rparr>" for r
    by (rule setup_proc_result)
  then show ?thesis
    unfolding setup_group_def by (intro those_map_Some) simp
qed

lemma setup_group_ok:
  assumes n: "0 \<le> n" and s: "0 < size'" and st: "setup_group n size' occupied = Some ps"
  shows "buffers_ok ps" and "length ps = nat size'"
    and "\<And>r. r < nat size' \<Longrightarrow> local_n (ps ! r) = nat (partition_local_n n size' (int r))"
    and "\<And>r j. r < nat size' \<Longrightarrow> 1 \<le> j \<Longrightarrow> j \<le> local_n (ps ! r) \<Longrightarrow>
           road_current (ps ! r) ! j = (if occupied r j then 1 else 0)"
    and "\<And>r. r < nat size' \<Longrightarrow> road_current (ps ! r) ! 0 = 0"
    and "\<And>r. r < nat size' \<Longrightarrow> road_current (ps ! r) ! (local_n (ps ! r) + 1) = 0"
proof -
  from st have "Some ps = Some (map (\<lambda>r. \<lparr>local_n = nat (partition_local_n n size' (int r)),
           road_current = map (\<lambda>j. if 1 \<le> j \<and> j \<le> nat (partition_local_n n size' (int r))
                                    then (if occupied r j then 1 else 0) else 0)
                              [0..<nat (partition_local_n n size' (int r)) + 2],
           road_next = replicate (nat (partition_local_n n size' (int r)) + 2) 0\<rparr>)
        [0..<nat size'])"
    by (simp only: setup_group_result [OF n s])
  then have e: "ps = map (\<lambda>r. \<lparr>local_n = nat (partition_local_n n size' (int r)),
           road_current = map (\<lambda>j. if 1 \<le> j \<and> j \<le> nat (partition_local_n n size' (int r))
                                    then (if occupied r j then 1 else 0) else 0)
                              [0..<nat (partition_local_n n size' (int r)) + 2],
           road_next = replicate (nat (partition_local_n n size' (int r)) + 2) 0\<rparr>)
        [0..<nat size']"
    by (simp only: option.inject)
  show len: "length ps = nat size'" by (simp add: e)
  show "buffers_ok ps"
    unfolding buffers_ok_def list_all_length using s len
    by (auto simp: e simp del: upt_Suc replicate_Suc)
  show "\<And>r. r < nat size' \<Longrightarrow> local_n (ps ! r) = nat (partition_local_n n size' (int r))"
    by (simp add: e)
  show "\<And>r j. r < nat size' \<Longrightarrow> 1 \<le> j \<Longrightarrow> j \<le> local_n (ps ! r) \<Longrightarrow>
           road_current (ps ! r) ! j = (if occupied r j then 1 else 0)"
    by (simp add: e del: upt_Suc)
  show "\<And>r. r < nat size' \<Longrightarrow> road_current (ps ! r) ! 0 = 0"
    by (simp add: e del: upt_Suc)
  show "\<And>r. r < nat size' \<Longrightarrow> road_current (ps ! r) ! (local_n (ps ! r) + 1) = 0"
    by (simp add: e del: upt_Suc)
qed

lemma setup_group_populated:
  assumes s: "1 \<le> size'" and n: "size' \<le> n" and st: "setup_group n size' occupied = Some ps"
  shows "populated ps"
proof -
  have n0: "0 \<le> n" and s0: "0 < size'" using s n by simp_all
  note ok = setup_group_ok [OF n0 s0 st]
  have "0 < n div size'" using s n by (simp add: pos_imp_zdiv_pos_iff)
  then have "1 \<le> n div size'" by simp
  then have p: "1 \<le> partition_local_n n size' rank" for rank
    by (simp add: partition_local_n_eq [OF n0 s0])
  have "1 \<le> local_n (ps ! r)" if "r < nat size'" for r
    using ok(3) [OF that] p [of "int r"] by linarith
  then show ?thesis
    using ok(1,2) by (simp add: populated_def list_all_length)
qed


lemma sum_list_partition:
  assumes n: "0 \<le> n" and s: "0 < size'"
  shows "sum_list (map (\<lambda>r. partition_local_n n size' (int r)) [0..<nat size']) = n"
proof -
  have "sum_list (map (\<lambda>r. partition_local_n n size' (int r)) [0..<nat size']) =
        (\<Sum>r = 0..<nat size'. partition_local_n n size' (int r))"
    by (simp add: interv_sum_list_conv_sum_set_nat)
  also have "\<dots> = (\<Sum>r \<in> int ` {0..<nat size'}. partition_local_n n size' r)"
    by (simp add: sum.reindex)
  also have "int ` {0..<nat size'} = {0..<size'}"
    using s by (simp add: image_int_atLeastLessThan)
  also have "(\<Sum>r = 0..<size'. partition_local_n n size' r) = n"
    by (simp only: partition_local_n_eq [OF n s] sum_partition [OF n s])
  finally show ?thesis .
qed

lemma setup_group_lattice:
  assumes s: "0 < size'" and st: "setup_group (int (length cells)) size' (lattice_draws cells size') = Some ps"
  shows "lattice ps = map (\<lambda>b. if b then 1 else 0) cells"
proof (rule nth_equalityI)
  let ?n = "int (length cells)"
  have n: "0 \<le> ?n" by simp
  note su = setup_group_ok [OF n s st]
  have ok: "buffers_ok ps" by (rule su(1))
  have nn: "0 \<le> partition_local_n ?n size' rank" for rank
    using s by (simp add: partition_local_n_eq pos_imp_zdiv_nonneg_iff)
  have lns: "map local_n ps = map (\<lambda>r. nat (partition_local_n ?n size' (int r))) [0..<nat size']"
    using su(2,3) by (intro nth_equalityI) simp_all
  have o: "offs ps r = nat (sum_list (map (\<lambda>k. partition_local_n ?n size' (int k)) [0..<r]))"
    if "r \<le> nat size'" for r
  proof -
    have "offs ps r = sum_list (take r (map local_n ps))" by (rule offs_sum [OF ok])
    also have "take r (map local_n ps) = map (\<lambda>k. nat (partition_local_n ?n size' (int k))) [0..<r]"
      using that by (simp add: lns take_map)
    also have "sum_list \<dots> = nat (sum_list (map (\<lambda>k. partition_local_n ?n size' (int k)) [0..<r]))"
      by (rule nat_sum_list [symmetric]) (simp add: nn)
    finally show ?thesis .
  qed
  have len: "length (lattice ps) = length cells"
    using o [of "nat size'"] su(2) sum_list_partition [OF n s] offs_all [of ps] by simp
  then show "length (lattice ps) = length (map (\<lambda>b. if b then 1 else 0 :: int8) cells)" by simp
  fix i assume "i < length (lattice ps)"
  then have i: "i < length (lattice ps)" .
  from lattice_index [OF ok i] obtain r j where
    r: "r < length ps" and j: "j < local_n (ps ! r)" and ij: "i = offs ps r + j" by blast
  have r': "r < nat size'" using r su(2) by simp
  have "lattice ps ! i = road_current (ps ! r) ! (j + 1)"
    using lattice_nth [OF ok r j] ij by simp
  also have "\<dots> = (if lattice_draws cells size' r (j + 1) then 1 else 0)"
    using su(4) [OF r', of "j + 1"] j by simp
  also have "lattice_draws cells size' r (j + 1) = cells ! i"
    using o [of r] r' by (simp add: lattice_draws_def ij)
  finally show "lattice ps ! i = map (\<lambda>b. if b then 1 else 0) cells ! i"
    using i len by simp
qed

lemma setup_group_partition:
  assumes s: "0 < size'" and n: "0 \<le> n" and st: "setup_group n size' occupied = Some ps"
    and r: "r < length ps"
  shows "int (local_n (ps ! r)) = partition_local_n n (int (length ps)) (int r)"
proof -
  note su = setup_group_ok [OF n s st]
  have "0 \<le> partition_local_n n size' (int r)"
    using s n by (simp add: partition_local_n_eq pos_imp_zdiv_nonneg_iff)
  moreover have "int (length ps) = size'" using su(2) s by simp
  ultimately show ?thesis using su(3) [of r] r su(2) by simp
qed

section \<open>Facts about the sequential reference\<close>

lemma seq_left:
  assumes "i < n"
  shows "nat ((int i - 1 + int n) smod int n) = (i + n - 1) mod n"
proof -
  have e: "int i - 1 + int n = int (i + n - 1)" using assms by linarith
  have "(int i - 1 + int n) smod int n = (int i - 1 + int n) mod int n"
    using assms by (intro smod_nonneg) linarith+
  also have "\<dots> = int ((i + n - 1) mod n)"
    by (simp only: e zmod_int)
  finally show ?thesis by (simp only: nat_int)
qed

lemma seq_right:
  assumes "i < n"
  shows "nat ((int i + 1) smod int n) = (i + 1) mod n"
proof -
  have e: "int i + 1 = int (i + 1)" by simp
  have "(int i + 1) smod int n = (int i + 1) mod int n"
    using assms by (intro smod_nonneg) linarith+
  also have "\<dots> = int ((i + 1) mod n)"
    by (simp only: e zmod_int)
  finally show ?thesis by (simp only: nat_int)
qed

lemma update_loop_seq_result:
  "i \<le> n \<Longrightarrow> length old = n \<Longrightarrow> length new = n \<Longrightarrow>
   \<exists>new' m'. update_loop_seq old n i new m = Some (new', m') \<and> length new' = n \<and>
     (\<forall>j < n. new' ! j =
        (if i \<le> j then next_cell (old ! ((j + n - 1) mod n)) (old ! j) (old ! ((j + 1) mod n))
         else new ! j))"
proof (induction old n i new m rule: update_loop_seq.induct)
  case (1 old n i new m)
  show ?case
  proof (cases "i < n")
    case False
    with "1.prems" have "i = n" by simp
    then show ?thesis using "1.prems" by (auto simp add: update_loop_seq.simps)
  next
    case True
    define left where "left = nat ((int i - 1 + int n) smod int n)"
    define right where "right = nat ((int i + 1) smod int n)"
    have lf: "left = (i + n - 1) mod n" unfolding left_def using True by (rule seq_left)
    have rt: "right = (i + 1) mod n" unfolding right_def using True by (rule seq_right)
    have ok: "i < length old \<and> left < length old \<and> right < length old \<and> i < length new"
      using True "1.prems" by (simp add: lf rt)
    define v :: c_int where
      "v = of_bool ((old ! left \<noteq> 0 \<and> \<not> old ! i \<noteq> 0) \<or> (old ! i \<noteq> 0 \<and> old ! right \<noteq> 0))"
    define m2 where "m2 = (if old ! i \<noteq> 0 \<and> \<not> old ! right \<noteq> 0 then m + 1 else m)"
    have unf: "update_loop_seq old n i new m = update_loop_seq old n (i + 1) (new[i := v]) m2"
      using True ok
      by (subst update_loop_seq.simps) (simp add: Let_def v_def m2_def left_def right_def)
    have "\<exists>new' m'. update_loop_seq old n (i + 1) (new[i := v]) m2 = Some (new', m') \<and>
       length new' = n \<and>
       (\<forall>j < n. new' ! j =
        (if i + 1 \<le> j then next_cell (old ! ((j + n - 1) mod n)) (old ! j) (old ! ((j + 1) mod n))
         else new[i := v] ! j))"
      unfolding v_def m2_def left_def right_def
      by (rule "1.IH" [OF True refl refl ok [unfolded left_def right_def] refl refl])
         (use True "1.prems" in simp_all)
    then obtain new' m' where
      r: "update_loop_seq old n (i + 1) (new[i := v]) m2 = Some (new', m')"
      and l: "length new' = n"
      and e: "\<forall>j < n. new' ! j =
        (if i + 1 \<le> j then next_cell (old ! ((j + n - 1) mod n)) (old ! j) (old ! ((j + 1) mod n))
         else new[i := v] ! j)"
      by blast
    have vv: "v = next_cell (old ! ((i + n - 1) mod n)) (old ! i) (old ! ((i + 1) mod n))"
      by (simp add: v_def next_cell_def lf rt)
    have "\<forall>j < n. new' ! j =
        (if i \<le> j then next_cell (old ! ((j + n - 1) mod n)) (old ! j) (old ! ((j + 1) mod n))
         else new ! j)"
    proof (intro allI impI)
      fix j assume j: "j < n"
      show "new' ! j = (if i \<le> j
              then next_cell (old ! ((j + n - 1) mod n)) (old ! j) (old ! ((j + 1) mod n))
              else new ! j)"
      proof (cases "j = i")
        case True
        with e j ok vv show ?thesis by simp
      next
        case False
        with e j show ?thesis by auto
      qed
    qed
    with unf r l show ?thesis by simp
  qed
qed

lemma update_step_seq_ring:
  assumes "length old = n" and "length new = n"
  shows "\<exists>m'. update_step_seq old new n = Some (ring_step old, m')"
proof -
  from update_loop_seq_result [of 0 n old new 0] assms
  obtain new' m' where
    r: "update_loop_seq old n 0 new 0 = Some (new', m')"
    and l: "length new' = n"
    and e: "\<forall>j < n. new' ! j =
              next_cell (old ! ((j + n - 1) mod n)) (old ! j) (old ! ((j + 1) mod n))"
    by auto
  have "new' = ring_step old"
    unfolding ring_step_def using l e assms
    by (intro nth_equalityI) (simp_all del: upt_Suc)
  with r show ?thesis by (simp add: update_step_seq_def)
qed

lemma length_ring_step: "length (ring_step g) = length g"
  by (simp add: ring_step_def)

lemma length_ring_funpow: "length ((ring_step ^^ k) g) = length g"
  by (induction k) (simp_all add: length_ring_step)

lemma main_loop_seq_ring:
  "length cur = n \<Longrightarrow> length nxt = n \<Longrightarrow>
   \<exists>nxt'. main_loop_seq t iterations n cur nxt =
           Some ((ring_step ^^ nat (iterations - t)) cur, nxt')"
proof (induction t iterations n cur nxt rule: main_loop_seq.induct)
  case (1 t iterations n cur nxt)
  show ?case
  proof (cases "t < iterations")
    case False
    then show ?thesis by (simp add: main_loop_seq.simps)
  next
    case True
    from update_step_seq_ring [OF "1.prems"] obtain m' where
      u: "update_step_seq cur nxt n = Some (ring_step cur, m')" by blast
    have "\<exists>nxt'. main_loop_seq (t + 1) iterations n (ring_step cur) cur =
           Some ((ring_step ^^ nat (iterations - (t + 1))) (ring_step cur), nxt')"
      by (rule "1.IH" [OF True u refl]) (simp_all add: length_ring_step "1.prems")
    then obtain nxt' where
      m: "main_loop_seq (t + 1) iterations n (ring_step cur) cur =
           Some ((ring_step ^^ nat (iterations - (t + 1))) (ring_step cur), nxt')" by blast
    have "nat (iterations - t) = Suc (nat (iterations - (t + 1)))" using True by simp
    then have "(ring_step ^^ nat (iterations - t)) cur =
               (ring_step ^^ nat (iterations - (t + 1))) (ring_step cur)"
      by (simp only: funpow_Suc_right o_apply)
    moreover have "main_loop_seq t iterations n cur nxt =
                   main_loop_seq (t + 1) iterations n (ring_step cur) cur"
      using True u by (subst main_loop_seq.simps) simp
    ultimately show ?thesis using m by simp
  qed
qed

lemma sint_next_cell8: "sint (next_cell a b c :: int8) = of_bool ((a \<noteq> 0 \<and> b = 0) \<or> (b \<noteq> 0 \<and> c \<noteq> 0))"
  by (simp add: next_cell_def)

lemma sint_next_cell32: "sint (next_cell a b c :: c_int) = of_bool ((a \<noteq> 0 \<and> b = 0) \<or> (b \<noteq> 0 \<and> c \<noteq> 0))"
  by (simp add: next_cell_def)

lemma sint_zero_iff: "sint (a :: int8) = sint (b :: c_int) \<Longrightarrow> (a = 0) = (b = 0)"
  by (metis signed_eq_0_iff)

lemma ring_step_sint:
  fixes g8 :: "int8 list" and g32 :: "c_int list"
  assumes "map sint g8 = map sint g32"
  shows "map sint (ring_step g8) = map sint (ring_step g32)"
proof (rule nth_equalityI)
  have len: "length g8 = length g32" using assms by (metis length_map)
  show "length (map sint (ring_step g8)) = length (map sint (ring_step g32))"
    using len by (simp add: length_ring_step)
  have z: "(g8 ! j = 0) = (g32 ! j = 0)" if "j < length g8" for j
  proof -
    have "sint (g8 ! j) = sint (g32 ! j)"
      using assms that len nth_map [of j g8 sint] nth_map [of j g32 sint] by simp
    then show ?thesis by (rule sint_zero_iff)
  qed
  fix i assume "i < length (map sint (ring_step g8))"
  then have i: "i < length g8" by (simp add: length_ring_step)
  then have pos: "0 < length g8" by linarith
  have a: "(i + length g8 - 1) mod length g8 < length g8" using pos by simp
  have b: "(i + 1) mod length g8 < length g8" using pos by simp
  show "map sint (ring_step g8) ! i = map sint (ring_step g32) ! i"
    using i len z [OF i] z [OF a] z [OF b]
    by (simp add: ring_step_def sint_next_cell8 sint_next_cell32 del: upt_Suc)
qed

lemma ring_funpow_sint:
  fixes g8 :: "int8 list" and g32 :: "c_int list"
  assumes "map sint g8 = map sint g32"
  shows "map sint ((ring_step ^^ k) g8) = map sint ((ring_step ^^ k) g32)"
  using assms by (induction k) (simp_all add: ring_step_sint)

section \<open>Facts about the gather and the car count\<close>

lemma gatherv_blocks:
  "length rcs = length chunks \<Longrightarrow> length ds = length chunks \<Longrightarrow>
   (\<forall>i < length chunks. int (length (chunks ! i)) \<le> rcs ! i \<and>
        ds ! i = int (d0 + length (concat (take i chunks)))) \<Longrightarrow>
   d0 + length (concat chunks) \<le> length full \<Longrightarrow>
   gatherv full (zip chunks (zip rcs ds)) =
     Some (take d0 full @ concat chunks @ drop (d0 + length (concat chunks)) full)"
proof (induction chunks arbitrary: full d0 rcs ds)
  case Nil
  then show ?case by simp
next
  case (Cons c cs)
  from Cons.prems(1) obtain rc rcs' where rcs: "rcs = rc # rcs'" and lr: "length rcs' = length cs"
    by (cases rcs) simp_all
  from Cons.prems(2) obtain d ds' where ds: "ds = d # ds'" and ld: "length ds' = length cs"
    by (cases ds) simp_all
  from Cons.prems(3) have h0: "int (length c) \<le> rc" "d = int d0"
    by (auto simp: rcs ds)
  have hs: "\<forall>i < length cs. int (length (cs ! i)) \<le> rcs' ! i \<and>
        ds' ! i = int ((d0 + length c) + length (concat (take i cs)))"
  proof (intro allI impI)
    fix i assume "i < length cs"
    then have "Suc i < length (c # cs)" by simp
    from Cons.prems(3) [rule_format, OF this]
    show "int (length (cs ! i)) \<le> rcs' ! i \<and>
        ds' ! i = int ((d0 + length c) + length (concat (take i cs)))"
      by (simp add: rcs ds)
  qed
  let ?full = "take (nat d) full @ c @ drop (nat d + length c) full"
  have fit: "d0 + length c \<le> length full" using Cons.prems(4) by simp
  have lf: "length ?full = length full" using fit h0 by simp
  have b: "(d0 + length c) + length (concat cs) \<le> length ?full"
    using Cons.prems(4) lf by simp
  have "gatherv full (zip (c # cs) (zip rcs ds)) = gatherv ?full (zip cs (zip rcs' ds'))"
    using h0 fit by (simp add: rcs ds)
  also have "\<dots> = Some (take (d0 + length c) ?full @ concat cs @
                         drop ((d0 + length c) + length (concat cs)) ?full)"
    by (rule Cons.IH [OF lr ld hs b])
  also have "take (d0 + length c) ?full = take d0 full @ c"
    using fit h0 by simp
  also have "drop ((d0 + length c) + length (concat cs)) ?full =
             drop (d0 + length (concat (c # cs))) full"
    using fit h0 by (simp add: ac_simps)
  finally show ?case by simp
qed

lemma gather_lattice:
  assumes ok: "buffers_ok ps" and n: "0 \<le> n"
    and ln: "\<And>r. r < length ps \<Longrightarrow> int (local_n (ps ! r)) = partition_local_n n (int (length ps)) (int r)"
    and full: "length full_road = length (lattice ps)"
  shows "gather n ps full_road = Some (lattice ps)"
proof -
  have ne: "0 < int (length ps)" using ok by (simp add: buffers_ok_def)
  from gather_counts_result [OF n ne, of "replicate (length ps) 0" "replicate (length ps) 0"]
  obtain rc ds where
    g: "gather_counts n (int (length ps)) (replicate (length ps) 0) (replicate (length ps) 0) = Some (rc, ds)"
    and rc: "rc = map (\<lambda>i. partition_local_n n (int (length ps)) (int i)) [0..<length ps]"
    and lds: "length ds = length ps"
    and ds: "\<forall>i < length ps. ds ! i = sum_list (take i rc)"
    by auto
  have rc': "rc = map (\<lambda>p. int (local_n p)) ps"
    unfolding rc using ln by (intro nth_equalityI) simp_all
  define chunks where "chunks = map owned ps"
  have ch: "map (\<lambda>p. take (local_n p) (drop 1 (road_current p))) ps = chunks"
    by (simp add: chunks_def owned_def)
  have all: "list_all (\<lambda>p. local_n p + 1 \<le> length (road_current p)) ps"
    using ok by (simp add: buffers_ok_def list_all_iff)
  have cond: "\<forall>i < length chunks. int (length (chunks ! i)) \<le> rc ! i \<and>
                ds ! i = int (0 + length (concat (take i chunks)))"
  proof (intro allI impI)
    fix i assume "i < length chunks"
    then have i: "i < length ps" by (simp add: chunks_def)
    have a: "int (length (chunks ! i)) \<le> rc ! i"
      using i buffers_okD [OF ok i] by (simp add: rc' chunks_def length_owned)
    have "ds ! i = sum_list (take i (map (\<lambda>p. int (local_n p)) ps))"
      using ds i by (simp add: rc')
    also have "\<dots> = int (sum_list (take i (map local_n ps)))"
      by (simp add: take_map int_sum_list)
    also have "sum_list (take i (map local_n ps)) = offs ps i"
      by (rule offs_sum [OF ok, symmetric])
    also have "offs ps i = length (concat (take i chunks))"
      by (simp add: offs_def lattice_def take_map chunks_def)
    finally show "int (length (chunks ! i)) \<le> rc ! i \<and>
                ds ! i = int (0 + length (concat (take i chunks)))"
      using a by simp
  qed
  have lat: "concat chunks = lattice ps" by (simp add: lattice_def chunks_def)
  have l1: "length rc = length chunks" by (simp add: rc' chunks_def)
  have l2: "length ds = length chunks" by (simp add: lds chunks_def)
  have l3: "0 + length (concat chunks) \<le> length full_road" by (simp add: lat full)
  have "gatherv full_road (zip chunks (zip rc ds)) =
        Some (take 0 full_road @ concat chunks @ drop (0 + length (concat chunks)) full_road)"
    by (rule gatherv_blocks [OF l1 l2 cond l3])
  also have "take 0 full_road @ concat chunks @ drop (0 + length (concat chunks)) full_road =
             lattice ps"
    using full by (simp add: lat)
  finally have "gatherv full_road (zip chunks (zip rc ds)) = Some (lattice ps)" .
  then show ?thesis
    unfolding gather_def g using all by (simp only: ch option.case prod.case if_True)
qed

lemma sum_list_concat_map:
  "sum_list (concat (map f xs)) = sum_list (map (\<lambda>x. sum_list (f x)) xs)"
  by (induction xs) simp_all

lemma count_loop_result:
  "1 \<le> i \<Longrightarrow> i \<le> ln + 1 \<Longrightarrow> ln + 1 \<le> length road \<Longrightarrow>
   count_loop road ln i c = Some (c + sum_list (map sint (take (ln + 1 - i) (drop i road))))"
proof (induction road ln i c rule: count_loop.induct)
  case (1 road ln i c)
  show ?case
  proof (cases "i \<le> ln")
    case False
    with "1.prems" have "i = ln + 1" by simp
    then show ?thesis by (subst count_loop.simps) simp
  next
    case True
    have ok: "i < length road" using True "1.prems" by simp
    have "count_loop road ln i c = count_loop road ln (i + 1) (c + sint (road ! i))"
      using True ok by (subst count_loop.simps) simp
    also have "\<dots> = Some (c + sint (road ! i) +
                 sum_list (map sint (take (ln + 1 - (i + 1)) (drop (i + 1) road))))"
      by (rule "1.IH" [OF True ok]) (use True "1.prems" in simp_all)
    also have "take (ln + 1 - i) (drop i road) =
               road ! i # take (ln + 1 - (i + 1)) (drop (i + 1) road)"
    proof -
      have "drop i road = road ! i # drop (Suc i) road"
        using ok by (simp add: Cons_nth_drop_Suc)
      moreover have "ln + 1 - i = Suc (ln + 1 - (i + 1))" using True by simp
      ultimately show ?thesis by simp
    qed
    then have "c + sint (road ! i) +
                 sum_list (map sint (take (ln + 1 - (i + 1)) (drop (i + 1) road))) =
               c + sum_list (map sint (take (ln + 1 - i) (drop i road)))"
      by simp
    finally show ?thesis .
  qed
qed

lemma total_cars_lattice:
  assumes ok: "buffers_ok ps"
  shows "total_cars ps = Some (sum_list (map sint (lattice ps)))"
proof -
  have c: "count_cars_local (road_current p) (local_n p) = Some (sum_list (map sint (owned p)))"
    if "p \<in> set ps" for p
  proof -
    have "length (road_current p) = local_n p + 2"
      using ok that by (simp add: buffers_ok_def list_all_iff)
    then show ?thesis
      unfolding count_cars_local_def owned_def
      by (subst count_loop_result) simp_all
  qed
  have "total_cars ps = Some (sum_list (map (\<lambda>p. sum_list (map sint (owned p))) ps))"
  proof -
    have "map (\<lambda>p. count_cars_local (road_current p) (local_n p)) ps =
          map (\<lambda>p. Some (sum_list (map sint (owned p)))) ps"
      using c by simp
    then show ?thesis
      by (simp only: total_cars_def Let_def) (simp add: list_all_iff comp_def)
  qed
  also have "sum_list (map (\<lambda>p. sum_list (map sint (owned p))) ps) =
             sum_list (map sint (lattice ps))"
    by (simp add: lattice_def map_concat sum_list_concat_map comp_def)
  finally show ?thesis .
qed

section \<open>The rule on a ring conserves the number of cars\<close>

lemma cyclic_shift_sum:
  fixes f :: "nat \<Rightarrow> int"
  assumes "0 < n"
  shows "(\<Sum>i<n. f ((i + n - 1) mod n)) = (\<Sum>i<n. f i)"
proof -
  from assms obtain k where n: "n = Suc k" by (cases n) simp_all
  have "(\<Sum>i<Suc k. f ((i + Suc k - 1) mod Suc k)) =
        f ((0 + Suc k - 1) mod Suc k) + (\<Sum>i<k. f ((Suc i + Suc k - 1) mod Suc k))"
    by (rule sum.lessThan_Suc_shift)
  also have "(0 + Suc k - 1) mod Suc k = k" by simp
  also have "(\<Sum>i<k. f ((Suc i + Suc k - 1) mod Suc k)) = (\<Sum>i<k. f i)"
  proof (rule sum.cong)
    fix i assume "i \<in> {..<k}"
    then have "i < Suc k" by simp
    moreover have "Suc i + Suc k - 1 = i + Suc k" by simp
    ultimately have "(Suc i + Suc k - 1) mod Suc k = i" by (rule ring_index)
    then show "f ((Suc i + Suc k - 1) mod Suc k) = f i" by (simp only:)
  qed simp
  finally show ?thesis by (simp add: n)
qed

lemma binary_nth: "binary g \<Longrightarrow> i < length g \<Longrightarrow> sint (g ! i) = of_bool (g ! i \<noteq> 0)"
  by (auto simp: binary_def list_all_length)

lemma binary_ring_step: "binary (ring_step g)"
  by (auto simp: binary_def list_all_length ring_step_def next_cell_def simp del: upt_Suc)

lemma ring_step_conserves:
  assumes bin: "binary g"
  shows "sum_list (map sint (ring_step g)) = sum_list (map sint g)"
proof (cases "g = []")
  case True
  then show ?thesis by (simp add: ring_step_def)
next
  case False
  let ?n = "length g"
  have pos: "0 < ?n" using False by simp
  define b where "b = (\<lambda>i. g ! i \<noteq> 0)"
  define m :: "nat \<Rightarrow> int" where "m = (\<lambda>i. of_bool (b i \<and> \<not> b ((i + 1) mod ?n)))"
  have cell: "sint (ring_step g ! i) = m ((i + ?n - 1) mod ?n) + of_bool (b i) - m i"
    if i: "i < ?n" for i
  proof -
    have "((i + ?n - 1) mod ?n + 1) mod ?n = i"
    proof (cases "i = 0")
      case True
      have "?n - 1 < ?n" using pos by linarith
      then have "(?n - 1) mod ?n = ?n - 1" by (rule mod_less)
      moreover have "?n - 1 + 1 = ?n" using pos by linarith
      ultimately show ?thesis using True by simp
    next
      case False
      have "i - 1 < ?n" using i by linarith
      moreover have "i + ?n - 1 = (i - 1) + ?n" using False by linarith
      ultimately have "(i + ?n - 1) mod ?n = i - 1" by (rule ring_index)
      moreover have "i - 1 + 1 = i" using False by linarith
      ultimately show ?thesis using i by simp
    qed
    then have mp: "m ((i + ?n - 1) mod ?n) = of_bool (b ((i + ?n - 1) mod ?n) \<and> \<not> b i)"
      by (simp only: m_def)
    have "sint (ring_step g ! i) =
          of_bool ((b ((i + ?n - 1) mod ?n) \<and> \<not> b i) \<or> (b i \<and> b ((i + 1) mod ?n)))"
      using i by (simp add: ring_step_def sint_next_cell8 b_def del: upt_Suc)
    also have "\<dots> = m ((i + ?n - 1) mod ?n) + of_bool (b i) - m i"
      unfolding mp by (simp add: m_def)
    finally show ?thesis .
  qed
  have "sum_list (map sint (ring_step g)) = (\<Sum>i<?n. sint (ring_step g ! i))"
    using sum_list_sum_nth [of "map sint (ring_step g)"]
    by (simp add: length_ring_step atLeast0LessThan)
  also have "\<dots> = (\<Sum>i<?n. m ((i + ?n - 1) mod ?n) + of_bool (b i) - m i)"
    by (rule sum.cong) (simp_all add: cell)
  also have "\<dots> = (\<Sum>i<?n. m ((i + ?n - 1) mod ?n)) + (\<Sum>i<?n. of_bool (b i)) - (\<Sum>i<?n. m i)"
    by (simp add: sum.distrib sum_subtractf)
  also have "(\<Sum>i<?n. m ((i + ?n - 1) mod ?n)) = (\<Sum>i<?n. m i)"
    by (rule cyclic_shift_sum [OF pos])
  also have "(\<Sum>i<?n. m i) + (\<Sum>i<?n. of_bool (b i)) - (\<Sum>i<?n. m i) = (\<Sum>i<?n. of_bool (b i))"
    by simp
  also have "(\<Sum>i<?n. of_bool (b i) :: int) = (\<Sum>i<?n. sint (g ! i))"
    by (rule sum.cong) (simp_all add: binary_nth [OF bin] b_def)
  also have "\<dots> = sum_list (map sint g)"
    using sum_list_sum_nth [of "map sint g"] by (simp add: atLeast0LessThan)
  finally show ?thesis .
qed

lemma ring_funpow_conserves:
  "binary g \<Longrightarrow> sum_list (map sint ((ring_step ^^ k) g)) = sum_list (map sint g)"
proof (induction k)
  case 0
  then show ?case by simp
next
  case (Suc k)
  have "binary ((ring_step ^^ k) g)"
    using Suc.prems by (cases k) (simp_all add: binary_ring_step)
  then show ?case using Suc by (simp add: ring_step_conserves)
qed

section \<open>Runs from a given lattice\<close>

lemma partitioned_run_ring:
  assumes s: "1 \<le> size'" and n: "size' \<le> int (length cells)"
    and full: "length full_road = length cells"
  shows "partitioned_run cells size' iterations full_road =
         Some ((ring_step ^^ nat iterations) (map (\<lambda>b. if b then 1 else 0) cells))"
proof -
  let ?n = "int (length cells)"
  have n0: "0 \<le> ?n" and s0: "0 < size'" using s by simp_all
  from setup_group_result [OF n0 s0] obtain ps0 where
    st: "setup_group ?n size' (lattice_draws cells size') = Some ps0" by blast
  have pop0: "populated ps0" by (rule setup_group_populated [OF s n st])
  have lat0: "lattice ps0 = map (\<lambda>b. if b then 1 else 0) cells"
    by (rule setup_group_lattice [OF s0 st])
  from main_loop_lattice [OF pop0, of 0 iterations] obtain ps where
    run: "main_loop 0 iterations ps0 = Some ps" and pop: "populated ps"
    and ln: "map local_n ps = map local_n ps0"
    and lat: "lattice ps = (ring_step ^^ nat iterations) (lattice ps0)" by auto
  have ok: "buffers_ok ps" using pop by (simp add: populated_def)
  have len: "length ps = length ps0" using ln by (metis length_map)
  have part: "int (local_n (ps ! r)) = partition_local_n ?n (int (length ps)) (int r)"
    if r: "r < length ps" for r
  proof -
    have "local_n (ps ! r) = local_n (ps0 ! r)"
      using r len nth_map [of r ps local_n] nth_map [of r ps0 local_n] ln by simp
    then show ?thesis
      using setup_group_partition [OF s0 n0 st, of r] r len by simp
  qed
  have fl: "length full_road = length (lattice ps)"
    by (simp add: lat lat0 length_ring_funpow full)
  have "gather ?n ps full_road = Some (lattice ps)"
    by (rule gather_lattice [OF ok n0 part fl])
  then show ?thesis
    by (simp add: partitioned_run_def st run lat lat0)
qed

lemma sequential_run_ring:
  assumes "length next_road = length cells"
  shows "sequential_run cells iterations next_road =
         Some ((ring_step ^^ nat iterations) (map (\<lambda>b. if b then 1 else 0) cells))"
proof -
  from main_loop_seq_ring [of "map (\<lambda>b. if b then 1 else 0) cells" "length cells" next_road 0 iterations]
    assms
  obtain nxt' where "main_loop_seq 0 iterations (length cells) (map (\<lambda>b. if b then 1 else 0) cells) next_road =
           Some ((ring_step ^^ nat iterations) (map (\<lambda>b. if b then 1 else 0) cells), nxt')"
    by auto
  then show ?thesis by (simp add: sequential_run_def)
qed


lemma single_car_steps:
  "ring_step [1, 0, 0, 0, 0, 0, 0, 0 :: int8] = [0, 1, 0, 0, 0, 0, 0, 0]"
  "ring_step [0, 1, 0, 0, 0, 0, 0, 0 :: int8] = [0, 0, 1, 0, 0, 0, 0, 0]"
  "ring_step [0, 0, 1, 0, 0, 0, 0, 0 :: int8] = [0, 0, 0, 1, 0, 0, 0, 0]"
  "ring_step [0, 0, 0, 1, 0, 0, 0, 0 :: int8] = [0, 0, 0, 0, 1, 0, 0, 0]"
  "ring_step [0, 0, 0, 0, 1, 0, 0, 0 :: int8] = [0, 0, 0, 0, 0, 1, 0, 0]"
  "ring_step [0, 0, 0, 0, 0, 1, 0, 0 :: int8] = [0, 0, 0, 0, 0, 0, 1, 0]"
  "ring_step [0, 0, 0, 0, 0, 0, 1, 0 :: int8] = [0, 0, 0, 0, 0, 0, 0, 1]"
  "ring_step [0, 0, 0, 0, 0, 0, 0, 1 :: int8] = [1, 0, 0, 0, 0, 0, 0, 0]"
  by code_simp+

lemma single_car_orbit:
  "(ring_step ^^ 2) [1, 0, 0, 0, 0, 0, 0, 0 :: int8] = [0, 0, 1, 0, 0, 0, 0, 0]"
  "(ring_step ^^ 3) [1, 0, 0, 0, 0, 0, 0, 0 :: int8] = [0, 0, 0, 1, 0, 0, 0, 0]"
  "(ring_step ^^ 4) [1, 0, 0, 0, 0, 0, 0, 0 :: int8] = [0, 0, 0, 0, 1, 0, 0, 0]"
  "(ring_step ^^ 5) [1, 0, 0, 0, 0, 0, 0, 0 :: int8] = [0, 0, 0, 0, 0, 1, 0, 0]"
  "(ring_step ^^ 6) [1, 0, 0, 0, 0, 0, 0, 0 :: int8] = [0, 0, 0, 0, 0, 0, 1, 0]"
  "(ring_step ^^ 7) [1, 0, 0, 0, 0, 0, 0, 0 :: int8] = [0, 0, 0, 0, 0, 0, 0, 1]"
  "(ring_step ^^ 8) [1, 0, 0, 0, 0, 0, 0, 0 :: int8] = [1, 0, 0, 0, 0, 0, 0, 0]"
  by (simp_all add: eval_nat_numeral single_car_steps)

lemma single_car_positions:
  "(replicate 8 (0::int8))[0 := 1] = [1, 0, 0, 0, 0, 0, 0, 0]"
  "(replicate 8 (0::int8))[Suc 0 := 1] = [0, 1, 0, 0, 0, 0, 0, 0]"
  "(replicate 8 (0::int8))[2 := 1] = [0, 0, 1, 0, 0, 0, 0, 0]"
  "(replicate 8 (0::int8))[3 := 1] = [0, 0, 0, 1, 0, 0, 0, 0]"
  "(replicate 8 (0::int8))[4 := 1] = [0, 0, 0, 0, 1, 0, 0, 0]"
  "(replicate 8 (0::int8))[5 := 1] = [0, 0, 0, 0, 0, 1, 0, 0]"
  "(replicate 8 (0::int8))[6 := 1] = [0, 0, 0, 0, 0, 0, 1, 0]"
  "(replicate 8 (0::int8))[7 := 1] = [0, 0, 0, 0, 0, 0, 0, 1]"
  by (simp_all add: eval_nat_numeral)

section \<open>Facts about the program\<close>

lemma main_loop_no_iterations: "iterations \<le> t \<Longrightarrow> main_loop t iterations ps = Some ps"
  by (subst main_loop.simps) simp

section \<open>Groups in which every process owns a cell\<close>

text \<open>
  When \<open>1 \<le> size \<le> n\<close> every rank owns at least one cell, no call of the exchange
  names a cell twice, and the whole run is defined. Then the set-up succeeds, any
  number of iterations of the main loop returns, the exchange that follows returns,
  and after it, for every rank \<open>r\<close>, ghost slot 0 equals cell \<open>local_n\<close> of the left
  neighbour \<open>(r - 1 + size) mod size\<close> and ghost slot \<open>local_n + 1\<close> equals cell 1 of the
  right neighbour \<open>(r + 1) mod size\<close>; with one process both neighbours are the process
  itself.
\<close>

theorem ghost_slots_after_exchange:
  assumes "1 \<le> size'" and "size' \<le> n"
  shows "\<exists>ps0 ps pe.
     setup_group n size' occupied = Some ps0 \<and> main_loop 0 t ps0 = Some ps \<and>
     exchange_all ps = Some pe \<and> length pe = nat size' \<and>
     (\<forall>r < nat size'.
        1 \<le> local_n (pe ! r) \<and>
        road_current (pe ! r) ! 0 =
          road_current (pe ! nat (left_neighbor (int r) size')) !
            local_n (pe ! nat (left_neighbor (int r) size')) \<and>
        road_current (pe ! r) ! (local_n (pe ! r) + 1) =
          road_current (pe ! nat (right_neighbor (int r) size')) ! 1)"
proof -
  have n0: "0 \<le> n" and s0: "0 < size'" using assms by simp_all
  from setup_group_result [OF n0 s0] obtain ps0 where
    st: "setup_group n size' occupied = Some ps0" by blast
  have pop0: "populated ps0" by (rule setup_group_populated [OF assms st])
  from main_loop_lattice [OF pop0, of 0 t] obtain ps where
    run: "main_loop 0 t ps0 = Some ps" and pop: "populated ps"
    and ln: "map local_n ps = map local_n ps0" by blast
  have ok: "buffers_ok ps" using pop by (simp add: populated_def)
  have len: "length ps = nat size'"
    using ln setup_group_ok(2) [OF n0 s0 st] by (metis length_map)
  have sz: "int (length ps) = size'" using len s0 by simp
  let ?pe = "map (\<lambda>r. (ps ! r)\<lparr>road_current := refreshed ps r\<rparr>) [0..<length ps]"
  have ex: "exchange_all ps = Some ?pe" by (rule exchange_all_refreshed [OF pop])
  have "1 \<le> local_n (?pe ! r) \<and>
        road_current (?pe ! r) ! 0 =
          road_current (?pe ! nat (left_neighbor (int r) size')) !
            local_n (?pe ! nat (left_neighbor (int r) size')) \<and>
        road_current (?pe ! r) ! (local_n (?pe ! r) + 1) =
          road_current (?pe ! nat (right_neighbor (int r) size')) ! 1"
    if r: "r < nat size'" for r
  proof -
    have r': "r < length ps" using r len by simp
    have l: "lnb ps r < length ps" and s: "rnb ps r < length ps"
      using r' by (rule lnb_less, rule rnb_less)
    note d = populatedD [OF pop r'] and dl = populatedD [OF pop l] and ds = populatedD [OF pop s]
    have nl: "nat (left_neighbor (int r) size') = lnb ps r" by (simp add: lnb_def sz)
    have nr: "nat (right_neighbor (int r) size') = rnb ps r" by (simp add: rnb_def sz)
    have a: "refreshed ps r ! 0 = road_current (ps ! lnb ps r) ! local_n (ps ! lnb ps r)"
      using d by (simp add: refreshed_def)
    have b: "refreshed ps (lnb ps r) ! local_n (ps ! lnb ps r) =
             road_current (ps ! lnb ps r) ! local_n (ps ! lnb ps r)"
      using dl by (simp add: refreshed_def)
    have c: "refreshed ps r ! (local_n (ps ! r) + 1) = road_current (ps ! rnb ps r) ! 1"
      using d by (simp add: refreshed_def)
    have e: "refreshed ps (rnb ps r) ! 1 = road_current (ps ! rnb ps r) ! 1"
      using ds by (simp add: refreshed_def)
    show ?thesis using r' l s d a b c e by (simp add: nl nr)
  qed
  with st run ex len show ?thesis by (intro exI [of _ ps0] exI [of _ ps] exI [of _ ?pe]) simp
qed

text \<open>
  In such a group, for any outcome of the initial draws and any iteration count, the
  sum of the local car counts over all processes after the loop equals the sum before.
\<close>

theorem occupancy_conserved:
  assumes "1 \<le> size'" and "size' \<le> n"
  shows "\<exists>ps0 ps c.
           setup_group n size' occupied = Some ps0 \<and>
           main_loop 0 iterations ps0 = Some ps \<and>
           total_cars ps0 = Some c \<and> total_cars ps = Some c"
proof -
  have n0: "0 \<le> n" and s0: "0 < size'" using assms by simp_all
  from setup_group_result [OF n0 s0] obtain ps0 where
    st: "setup_group n size' occupied = Some ps0" by blast
  have pop0: "populated ps0" by (rule setup_group_populated [OF assms st])
  have ok0: "buffers_ok ps0" using pop0 by (simp add: populated_def)
  note su = setup_group_ok [OF n0 s0 st]
  have bin: "binary (lattice ps0)"
    unfolding binary_def list_all_length
  proof (intro allI impI)
    fix i assume "i < length (lattice ps0)"
    from lattice_index [OF ok0 this] obtain r j where
      r: "r < length ps0" and j: "j < local_n (ps0 ! r)" and ij: "i = offs ps0 r + j" by blast
    have "lattice ps0 ! i = road_current (ps0 ! r) ! (j + 1)"
      using lattice_nth [OF ok0 r j] ij by simp
    also have "\<dots> = (if occupied r (j + 1) then 1 else 0)"
      using su(4) [of r "j + 1"] r j su(2) by simp
    finally show "lattice ps0 ! i = 0 \<or> lattice ps0 ! i = 1" by simp
  qed
  from main_loop_lattice [OF pop0, of 0 iterations] obtain ps where
    run: "main_loop 0 iterations ps0 = Some ps" and pop: "populated ps"
    and lat: "lattice ps = (ring_step ^^ nat iterations) (lattice ps0)" by auto
  have ok: "buffers_ok ps" using pop by (simp add: populated_def)
  have "total_cars ps = Some (sum_list (map sint (lattice ps)))"
    by (rule total_cars_lattice [OF ok])
  also have "sum_list (map sint (lattice ps)) = sum_list (map sint (lattice ps0))"
    unfolding lat by (rule ring_funpow_conserves [OF bin])
  finally have "total_cars ps = Some (sum_list (map sint (lattice ps0)))" .
  with st run total_cars_lattice [OF ok0] show ?thesis by blast
qed

text \<open>
  From the same lattice of \<open>n\<close> cells and the same iteration count, partitioned runs with
  any two sizes in \<open>[1, n]\<close> return the same gathered lattice, whatever the gather buffer
  held before, and it has the values of the lattice the sequential reference returns.
\<close>

theorem partition_size_invariance:
  assumes "1 \<le> size1" and "size1 \<le> int (length cells)"
    and "1 \<le> size2" and "size2 \<le> int (length cells)"
    and "length full1 = length cells" and "length full2 = length cells"
    and "length next_road = length cells"
  shows "\<exists>final seq_final.
           partitioned_run cells size1 iterations full1 = Some final \<and>
           partitioned_run cells size2 iterations full2 = Some final \<and>
           sequential_run cells iterations next_road = Some seq_final \<and>
           map sint final = map sint seq_final"
proof -
  have "map sint (map (\<lambda>b. if b then 1 else 0 :: int8) cells) =
        map sint (map (\<lambda>b. if b then 1 else 0 :: c_int) cells)"
    by simp
  then have "map sint ((ring_step ^^ nat iterations) (map (\<lambda>b. if b then 1 else 0 :: int8) cells)) =
        map sint ((ring_step ^^ nat iterations) (map (\<lambda>b. if b then 1 else 0 :: c_int) cells))"
    by (rule ring_funpow_sint)
  with partitioned_run_ring [OF assms(1,2,5)] partitioned_run_ring [OF assms(3,4,6)]
    sequential_run_ring [OF assms(7)]
  show ?thesis by simp
qed

section \<open>Groups with an empty segment\<close>

text \<open>
  A rank that owns no cell names one cell as send and as receive buffer in its first
  call, so the exchange of its group has no defined result, nor has a main loop that
  still has an iteration to run. With \<open>0 \<le> n < size\<close> the last rank owns no cell.
\<close>

lemma sendrecv_round_None:
  assumes "r < length roads" and "sendrecv_deliver roads calls r = None"
  shows "sendrecv_round roads calls = None"
proof -
  have "sendrecv_deliver roads calls r \<in> set (map (sendrecv_deliver roads calls) [0..<length roads])"
    using assms(1) by simp
  then have "\<not> list_all (\<lambda>x. x \<noteq> None) (map (sendrecv_deliver roads calls) [0..<length roads])"
    using assms(2) unfolding list_all_iff by metis
  then show ?thesis by (simp add: sendrecv_round_def Let_def)
qed

lemma exchange_all_empty_segment:
  assumes k: "k < length ps" and e: "local_n (ps ! k) = 0"
  shows "exchange_all ps = None"
proof -
  let ?calls = "map (\<lambda>cs. cs ! 0) (group_calls ps)"
  have "?calls ! k = exchange_borders 0 (left_neighbor (int k) (int (length ps)))
                       (right_neighbor (int k) (int (length ps))) ! 0"
    using k e by (simp add: group_calls_def)
  then have "sendbuf (?calls ! k) = recvbuf (?calls ! k)"
    by (simp add: exchange_borders_def)
  then have "sendrecv_deliver (map road_current ps) ?calls k = None"
    by (simp add: sendrecv_deliver_def Let_def)
  then have "sendrecv_round (map road_current ps) ?calls = None"
    using k by (intro sendrecv_round_None [of k]) simp_all
  then show ?thesis by (simp add: exchange_all_def)
qed

lemma main_loop_empty_segment:
  assumes "k < length ps" and "local_n (ps ! k) = 0" and "t < iterations"
  shows "main_loop t iterations ps = None"
  using assms(3) exchange_all_empty_segment [OF assms(1,2)]
  by (subst main_loop.simps) (simp add: step_def)

lemma setup_group_empty_segment:
  assumes n: "0 \<le> n" and s: "n < size'" and st: "setup_group n size' occupied = Some ps"
  shows "nat size' - 1 < length ps \<and> local_n (ps ! (nat size' - 1)) = 0"
proof -
  have s0: "0 < size'" using n s by simp
  note ok = setup_group_ok [OF n s0 st]
  have r: "nat size' - 1 < nat size'" using s0 by simp
  have i: "int (nat size' - 1) = size' - 1" using s0 by simp
  have "n div size' = 0" "n mod size' = n" using n s by simp_all
  then have "partition_local_n n size' (size' - 1) = 0"
    using s by (simp add: partition_local_n_eq [OF n s0])
  then have "partition_local_n n size' (int (nat size' - 1)) = 0"
    by (simp only: i)
  then have "local_n (ps ! (nat size' - 1)) = 0"
    using ok(3) [OF r] by simp
  then show ?thesis using r ok(2) by simp
qed

lemma main_empty_segment:
  assumes n: "0 \<le> n" and s: "n < size'" and it: "0 < iterations"
  shows "main n iterations size' occupied True csv_ok = None"
proof -
  have s0: "0 < size'" using n s by simp
  from setup_group_result [OF n s0] obtain ps where
    st: "setup_group n size' occupied = Some ps" by blast
  from setup_group_empty_segment [OF n s st]
  have "main_loop 0 iterations ps = None"
    using it by (intro main_loop_empty_segment [of "nat size' - 1"]) simp_all
  then show ?thesis by (simp add: main_def st split: option.splits)
qed

section \<open>Claims about the update kernel\<close>

text \<open>
  C4. On buffers of \<open>local_n + 2\<close> cells \<^verbatim>\<open>update_step\<close> returns, every owned index
  \<open>i\<close> of the destination holds \<open>(old[i-1] AND NOT old[i]) OR (old[i] AND old[i+1])\<close>
  as a C truth value (1 or 0), and the returned count is the number of owned indices
  \<open>i\<close> with \<open>old[i] AND NOT old[i+1]\<close>.
\<close>

theorem update_step_rule:
  assumes "length old_road = ln + 2" and "length new_road = ln + 2"
  shows "\<exists>new'. update_step old_road new_road ln =
       Some (new', card {i. 1 \<le> i \<and> i \<le> ln \<and> old_road ! i \<noteq> 0 \<and> \<not> old_road ! (i + 1) \<noteq> 0}) \<and>
     (\<forall>i. 1 \<le> i \<and> i \<le> ln \<longrightarrow>
        new' ! i = of_bool ((old_road ! (i - 1) \<noteq> 0 \<and> \<not> old_road ! i \<noteq> 0) \<or>
                            (old_road ! i \<noteq> 0 \<and> old_road ! (i + 1) \<noteq> 0)))"
proof -
  have "length (filter (leaves old_road) [1..<ln + 1]) =
        card ({i. leaves old_road i} \<inter> set [1..<ln + 1])"
    by (rule distinct_length_filter) simp
  also have "{i. leaves old_road i} \<inter> set [1..<ln + 1] =
        {i. 1 \<le> i \<and> i \<le> ln \<and> old_road ! i \<noteq> 0 \<and> \<not> old_road ! (i + 1) \<noteq> 0}"
    by (auto simp: leaves_def)
  finally have c: "length (filter (leaves old_road) [1..<ln + 1]) =
        card {i. 1 \<le> i \<and> i \<le> ln \<and> old_road ! i \<noteq> 0 \<and> \<not> old_road ! (i + 1) \<noteq> 0}" .
  from update_step_result [OF assms] c show ?thesis
    by (auto simp: next_cell_def)
qed

theorem update_step_rule_witness:
  "\<exists>new'. update_step [0, 1, 0, 1, 1, 0] [9, 9, 9, 9, 9, 9] 4 =
       Some (new', card {i. 1 \<le> i \<and> i \<le> (4::nat) \<and> [0, 1, 0, 1, 1, 0 :: int8] ! i \<noteq> 0 \<and>
                            \<not> [0, 1, 0, 1, 1, 0 :: int8] ! (i + 1) \<noteq> 0}) \<and>
     (\<forall>i. 1 \<le> i \<and> i \<le> (4::nat) \<longrightarrow>
        new' ! i = of_bool (([0, 1, 0, 1, 1, 0 :: int8] ! (i - 1) \<noteq> 0 \<and> \<not> [0, 1, 0, 1, 1, 0 :: int8] ! i \<noteq> 0) \<or>
                            ([0, 1, 0, 1, 1, 0 :: int8] ! i \<noteq> 0 \<and> [0, 1, 0, 1, 1, 0 :: int8] ! (i + 1) \<noteq> 0)))"
  using update_step_rule [of "[0, 1, 0, 1, 1, 0]" 4 "[9, 9, 9, 9, 9, 9]"] by simp

text \<open>
  C10. On buffers of \<open>local_n + 2\<close> cells \<^verbatim>\<open>update_step\<close> returns, and whatever it
  returns, the destination buffer keeps its length and every cell outside the owned
  indices \<open>1 .. local_n\<close>, the two ghost slots among them; after the pointer swap this
  buffer is the current one, so its ghost slots still hold what the destination held
  before the update, until the next exchange overwrites them.
\<close>

theorem update_step_ghosts_unchanged:
  "(length old_road = n_local + 2 \<and> length new_road = n_local + 2 \<longrightarrow>
      (\<exists>new' moved. update_step old_road new_road n_local = Some (new', moved))) \<and>
   (\<forall>new' moved. update_step old_road new_road n_local = Some (new', moved) \<longrightarrow>
      length new' = length new_road \<and>
      (\<forall>j < length new_road. j = 0 \<or> n_local < j \<longrightarrow> new' ! j = new_road ! j) \<and>
      update_and_swap \<lparr>local_n = n_local, road_current = old_road, road_next = new_road\<rparr> =
        Some \<lparr>local_n = n_local, road_current = new', road_next = old_road\<rparr>)"
proof (intro conjI allI impI)
  assume "length old_road = n_local + 2 \<and> length new_road = n_local + 2"
  then show "\<exists>new' moved. update_step old_road new_road n_local = Some (new', moved)"
    using update_step_result [of old_road n_local new_road] by blast
next
  fix new' moved
  assume r: "update_step old_road new_road n_local = Some (new', moved)"
  then have "update_loop old_road n_local 1 new_road 0 = Some (new', moved)"
    by (simp add: update_step_def)
  from update_loop_frame [OF this]
  show "length new' = length new_road"
    and "\<And>j. j < length new_road \<Longrightarrow> j = 0 \<or> n_local < j \<Longrightarrow> new' ! j = new_road ! j"
    by auto
  show "update_and_swap \<lparr>local_n = n_local, road_current = old_road, road_next = new_road\<rparr> =
       Some \<lparr>local_n = n_local, road_current = new', road_next = old_road\<rparr>"
    using r by (simp add: update_and_swap_def)
qed

theorem update_step_ghosts_unchanged_witness:
  "(\<exists>new' moved. update_step [0, 1, 0, 1, 1, 0] [7, 9, 9, 9, 9, 9] 4 = Some (new', moved)) \<and>
   length [7, 0, 1, 1, 0, 9 :: int8] = length [7, 9, 9, 9, 9, 9 :: int8] \<and>
   [7, 0, 1, 1, 0, 9 :: int8] ! 0 = [7, 9, 9, 9, 9, 9 :: int8] ! 0 \<and>
   [7, 0, 1, 1, 0, 9 :: int8] ! 5 = [7, 9, 9, 9, 9, 9 :: int8] ! 5 \<and>
   update_and_swap \<lparr>local_n = 4, road_current = [0, 1, 0, 1, 1, 0], road_next = [7, 9, 9, 9, 9, 9]\<rparr> =
     Some \<lparr>local_n = 4, road_current = [7, 0, 1, 1, 0, 9], road_next = [0, 1, 0, 1, 1, 0]\<rparr>"
proof -
  have h: "update_step [0, 1, 0, 1, 1, 0] [7, 9, 9, 9, 9, 9] 4 = Some ([7, 0, 1, 1, 0, 9], 2)"
    by (simp add: update_step_def update_loop.simps)
  from update_step_ghosts_unchanged [of "[0, 1, 0, 1, 1, 0]" 4 "[7, 9, 9, 9, 9, 9]"] h
  show ?thesis by simp
qed

section \<open>Claims about the partition and the ring\<close>

text \<open>
  C8. For a rank in \<open>[0, size)\<close> the neighbours computed in \<^verbatim>\<open>main\<close> with C's
  truncating \<^verbatim>\<open>%\<close> are \<open>(rank - 1 + size) mod size\<close> and \<open>(rank + 1) mod size\<close>; both
  are ranks of the group, they are inverse to each other, and with a single process
  both are the process itself. The two expressions are pure: they are functions of
  rank and size alone.
\<close>

theorem ring_neighbors:
  assumes "0 \<le> rank" and "rank < size'"
  shows "left_neighbor rank size' = (rank - 1 + size') mod size' \<and>
         right_neighbor rank size' = (rank + 1) mod size' \<and>
         0 \<le> left_neighbor rank size' \<and> left_neighbor rank size' < size' \<and>
         0 \<le> right_neighbor rank size' \<and> right_neighbor rank size' < size' \<and>
         right_neighbor (left_neighbor rank size') size' = rank \<and>
         left_neighbor (right_neighbor rank size') size' = rank \<and>
         (size' = 1 \<longrightarrow> left_neighbor rank size' = rank \<and> right_neighbor rank size' = rank)"
proof -
  have l: "left_neighbor rank size' = (rank - 1 + size') mod size'"
    using assms by (simp only: left_neighbor_def) (rule smod_nonneg, simp_all)
  have r: "right_neighbor rank size' = (rank + 1) mod size'"
    using assms by (simp only: right_neighbor_def) (rule smod_nonneg, simp_all)
  have l': "left_neighbor rank size' = (if rank = 0 then size' - 1 else rank - 1)"
    using assms by (rule left_neighbor_eq)
  have r': "right_neighbor rank size' = (if rank = size' - 1 then 0 else rank + 1)"
    using assms by (rule right_neighbor_eq)
  have rl: "right_neighbor (left_neighbor rank size') size' = rank"
    using assms by (simp add: l' right_neighbor_eq)
  have lr: "left_neighbor (right_neighbor rank size') size' = rank"
    using assms by (simp add: r' left_neighbor_eq)
  have range: "0 \<le> left_neighbor rank size' \<and> left_neighbor rank size' < size' \<and>
         0 \<le> right_neighbor rank size' \<and> right_neighbor rank size' < size'"
    using assms by (simp add: l' r')
  have one: "size' = 1 \<longrightarrow> left_neighbor rank size' = rank \<and> right_neighbor rank size' = rank"
    using assms l' r' by auto
  from l r range rl lr one show ?thesis by blast
qed

theorem ring_neighbors_witness:
  "left_neighbor 0 1 = 0 \<and> right_neighbor 0 1 = 0 \<and>
   left_neighbor 0 4 = 3 \<and> right_neighbor 3 4 = 0 \<and> right_neighbor (left_neighbor 0 4) 4 = 0"
  using ring_neighbors [of 0 1] ring_neighbors [of 0 4] ring_neighbors [of 3 4] by simp

text \<open>
  C5. For \<open>n \<ge> 1\<close> and \<open>size \<ge> 1\<close> the process of rank \<open>r\<close> gets \<open>n div size\<close> cells
  and one more exactly when \<open>r < n mod size\<close>; the sizes sum to \<open>n\<close>, none is below
  \<open>n div size\<close>, exactly \<open>n mod size\<close> ranks have the extra cell, and the loop of
  \<^verbatim>\<open>gather_and_print\<close> fills \<^verbatim>\<open>recvcounts\<close> with the same sizes and \<^verbatim>\<open>displs[i]\<close>
  with the sum of \<^verbatim>\<open>recvcounts[0..i-1]\<close>.
\<close>

theorem partition_local_n_balanced:
  assumes "1 \<le> n" and "1 \<le> size'"
    and "length recvcounts = nat size'" and "length displs = nat size'"
  shows "(\<forall>rank. 0 \<le> rank \<and> rank < size' \<longrightarrow>
            partition_local_n n size' rank = n div size' + (if rank < n mod size' then 1 else 0) \<and>
            n div size' \<le> partition_local_n n size' rank) \<and>
         (\<Sum>rank = 0..<size'. partition_local_n n size' rank) = n \<and>
         int (card {rank. 0 \<le> rank \<and> rank < size' \<and>
                          partition_local_n n size' rank = n div size' + 1}) = n mod size' \<and>
         (\<exists>rc ds. gather_counts n size' recvcounts displs = Some (rc, ds) \<and>
            rc = map (\<lambda>i. partition_local_n n size' (int i)) [0..<nat size'] \<and>
            length ds = nat size' \<and>
            (\<forall>i < nat size'. ds ! i = sum_list (take i rc)))"
proof -
  have n: "0 \<le> n" and s: "0 < size'" using assms by simp_all
  have e: "\<And>rank. partition_local_n n size' rank =
             n div size' + (if rank < n mod size' then 1 else 0)"
    by (rule partition_local_n_eq [OF n s])
  have "(\<Sum>rank = 0..<size'. partition_local_n n size' rank) = n"
    by (simp only: e sum_partition [OF n s])
  moreover have "int (card {rank. 0 \<le> rank \<and> rank < size' \<and>
                          partition_local_n n size' rank = n div size' + 1}) = n mod size'"
    by (simp only: e card_extra [OF n s])
  moreover note gather_counts_result [OF n s assms(3,4)]
  ultimately show ?thesis by (simp add: e)
qed

theorem partition_local_n_balanced_witness:
  "map (partition_local_n 10 4) [0, 1, 2, 3] = [3, 3, 2, 2] \<and>
   (\<Sum>rank = 0..<4. partition_local_n 10 4 rank) = 10 \<and>
   gather_counts 10 4 [7, 7, 7, 7] [9, 9, 9, 9] = Some ([3, 3, 2, 2], [0, 3, 6, 8])"
proof -
  have g: "gather_counts 10 4 [7, 7, 7, 7] [9, 9, 9, 9] = Some ([3, 3, 2, 2], [0, 3, 6, 8])"
    by code_simp
  have p: "map (partition_local_n 10 4) [0, 1, 2, 3] = [3, 3, 2, 2]"
    by code_simp
  have "(\<Sum>rank = 0..<4. partition_local_n 10 4 rank) = 10"
    by (rule partition_local_n_balanced [of 10 4 "[7, 7, 7, 7]" "[9, 9, 9, 9]",
          THEN conjunct2, THEN conjunct1]) simp_all
  with g p show ?thesis by blast
qed

section \<open>Claims about the halo exchange\<close>

text \<open>
  C1 at one cell on two processes. The claim is the invariant the update kernel needs
  and it holds whenever every process owns a cell (\<open>ghost_slots_after_exchange\<close>). With
  \<open>size > n\<close> it is not established: rank 1 owns nothing (\<open>local_n = 0\<close>), so its first
  call sends index 1 and receives into index \<open>local_n + 1 = 1\<close>, its second call sends
  index \<open>local_n = 0\<close> and receives into index 0. Each call names one cell as send and
  as receive buffer, and the exchange has no defined result, already in the first
  iteration.
\<close>

theorem exchange_undefined_beside_empty_segment:
  "setup_group 1 2 (lattice_draws [True] 2) =
     Some [\<lparr>local_n = 1, road_current = [0, 1, 0], road_next = [0, 0, 0]\<rparr>,
           \<lparr>local_n = 0, road_current = [0, 0], road_next = [0, 0]\<rparr>] \<and>
   group_calls [\<lparr>local_n = 1, road_current = [0, 1, 0], road_next = [0, 0, 0]\<rparr>,
                \<lparr>local_n = 0, road_current = [0, 0], road_next = [0, 0]\<rparr>] ! 1 =
     [\<lparr>sendbuf = 1, dest = 0, sendtag = 0, recvbuf = 1, source = 0, recvtag = 0\<rparr>,
      \<lparr>sendbuf = 0, dest = 0, sendtag = 1, recvbuf = 0, source = 0, recvtag = 1\<rparr>] \<and>
   exchange_all [\<lparr>local_n = 1, road_current = [0, 1, 0], road_next = [0, 0, 0]\<rparr>,
                 \<lparr>local_n = 0, road_current = [0, 0], road_next = [0, 0]\<rparr>] = None"
  by code_simp

text \<open>
  C7, with the two sub-phases in the order of the code. The first call of
  \<^verbatim>\<open>exchange_borders\<close> sends the leftmost owned cell (index 1) to the left neighbour
  and receives into the right ghost slot (index \<open>local_n + 1\<close>) from the right
  neighbour; the second sends the rightmost owned cell (index \<open>local_n\<close>) to the right
  neighbour and receives into the left ghost slot (index 0) from the left neighbour.
  On a group with allocated buffers in which every process owns a cell both rounds
  return: after the first every rank holds cell 1 of its right neighbour in its right
  ghost slot, after the second also cell \<open>local_n\<close> of its left neighbour in its left
  ghost slot. When some process owns no cell the exchange has no defined result.
\<close>

theorem exchange_sub_phases:
  assumes "buffers_ok ps"
  shows "map sendbuf (exchange_borders ln l r) = [1, ln] \<and>
         map dest (exchange_borders ln l r) = [l, r] \<and>
         map recvbuf (exchange_borders ln l r) = [ln + 1, 0] \<and>
         map source (exchange_borders ln l r) = [r, l] \<and>
         (populated ps \<longrightarrow>
          (\<exists>roads1 roads2.
            sendrecv_round (map road_current ps) (map (\<lambda>cs. cs ! 0) (group_calls ps)) = Some roads1 \<and>
            sendrecv_round roads1 (map (\<lambda>cs. cs ! 1) (group_calls ps)) = Some roads2 \<and>
            exchange_all ps = Some (map (\<lambda>(p, road). p\<lparr>road_current := road\<rparr>) (zip ps roads2)) \<and>
            length roads1 = length ps \<and> length roads2 = length ps \<and>
            (\<forall>k < length ps.
               roads1 ! k = (road_current (ps ! k))
                  [local_n (ps ! k) + 1 :=
                     road_current (ps ! nat (right_neighbor (int k) (int (length ps)))) ! 1] \<and>
               roads2 ! k = (roads1 ! k)
                  [0 := road_current (ps ! nat (left_neighbor (int k) (int (length ps)))) !
                          local_n (ps ! nat (left_neighbor (int k) (int (length ps))))]))) \<and>
         (\<not> populated ps \<longrightarrow> exchange_all ps = None)"
proof -
  have e: "map sendbuf (exchange_borders ln l r) = [1, ln] \<and>
         map dest (exchange_borders ln l r) = [l, r] \<and>
         map recvbuf (exchange_borders ln l r) = [ln + 1, 0] \<and>
         map source (exchange_borders ln l r) = [r, l]"
    by (simp add: exchange_borders_def)
  have u: "exchange_all ps = None" if "\<not> populated ps"
  proof -
    from that assms have "\<not> list_all (\<lambda>p. 1 \<le> local_n p) ps"
      by (simp add: populated_def)
    then obtain k where "k < length ps" "local_n (ps ! k) = 0"
      by (auto simp add: list_all_length)
    then show ?thesis by (rule exchange_all_empty_segment)
  qed
  have p: "\<exists>roads1 roads2.
            sendrecv_round (map road_current ps) (map (\<lambda>cs. cs ! 0) (group_calls ps)) = Some roads1 \<and>
            sendrecv_round roads1 (map (\<lambda>cs. cs ! 1) (group_calls ps)) = Some roads2 \<and>
            exchange_all ps = Some (map (\<lambda>(p, road). p\<lparr>road_current := road\<rparr>) (zip ps roads2)) \<and>
            length roads1 = length ps \<and> length roads2 = length ps \<and>
            (\<forall>k < length ps.
               roads1 ! k = (road_current (ps ! k))
                  [local_n (ps ! k) + 1 :=
                     road_current (ps ! nat (right_neighbor (int k) (int (length ps)))) ! 1] \<and>
               roads2 ! k = (roads1 ! k)
                  [0 := road_current (ps ! nat (left_neighbor (int k) (int (length ps)))) !
                          local_n (ps ! nat (left_neighbor (int k) (int (length ps))))])"
    if pop: "populated ps"
  proof -
  define roads where "roads = map road_current ps"
  define r1 where
    "r1 = map (\<lambda>k. (roads ! k)[local_n (ps ! k) + 1 := roads ! rnb ps k ! 1]) [0..<length ps]"
  define r2 where
    "r2 = map (\<lambda>k. (r1 ! k)[0 := r1 ! lnb ps k ! local_n (ps ! lnb ps k)]) [0..<length ps]"
  have len: "length roads = length ps" by (simp add: roads_def)
  have fit: "length (roads ! k) = local_n (ps ! k) + 2" if "k < length ps" for k
    using populatedD [OF pop that] that by (simp add: roads_def)
  have pos: "1 \<le> local_n (ps ! k)" if "k < length ps" for k
    using populatedD [OF pop that] by simp
  have l1: "length r1 = length ps" by (simp add: r1_def)
  have l2: "length r2 = length ps" by (simp add: r2_def)
  have f1: "length (r1 ! k) = local_n (ps ! k) + 2" if "k < length ps" for k
    using that fit by (simp add: r1_def)
  have a: "sendrecv_round (map road_current ps) (map (\<lambda>cs. cs ! 0) (group_calls ps)) = Some r1"
    unfolding r1_def roads_def [symmetric] by (rule round0 [OF len fit pos])
  have b: "sendrecv_round r1 (map (\<lambda>cs. cs ! 1) (group_calls ps)) = Some r2"
    unfolding r2_def by (rule round1 [OF l1 f1 pos])
  have c: "exchange_all ps = Some (map (\<lambda>(p, road). p\<lparr>road_current := road\<rparr>) (zip ps r2))"
    using a b by (simp add: exchange_all_def)
  have d: "\<forall>k < length ps.
           r1 ! k = (road_current (ps ! k))
                  [local_n (ps ! k) + 1 :=
                     road_current (ps ! nat (right_neighbor (int k) (int (length ps)))) ! 1] \<and>
           r2 ! k = (r1 ! k)
                  [0 := road_current (ps ! nat (left_neighbor (int k) (int (length ps)))) !
                          local_n (ps ! nat (left_neighbor (int k) (int (length ps))))]"
  proof (intro allI impI)
    fix k assume k: "k < length ps"
    have l: "lnb ps k < length ps" and s: "rnb ps k < length ps"
      using k by (rule lnb_less, rule rnb_less)
    have x: "r1 ! k = (road_current (ps ! k))
                  [local_n (ps ! k) + 1 := road_current (ps ! rnb ps k) ! 1]"
      using k s by (simp add: r1_def roads_def)
    have "r1 ! lnb ps k ! local_n (ps ! lnb ps k) =
          road_current (ps ! lnb ps k) ! local_n (ps ! lnb ps k)"
      using l fit [OF l] by (simp add: r1_def roads_def rnb_less)
    then have y: "r2 ! k = (r1 ! k)[0 := road_current (ps ! lnb ps k) ! local_n (ps ! lnb ps k)]"
      using k by (simp add: r2_def)
    from x y show "r1 ! k = (road_current (ps ! k))
                  [local_n (ps ! k) + 1 :=
                     road_current (ps ! nat (right_neighbor (int k) (int (length ps)))) ! 1] \<and>
           r2 ! k = (r1 ! k)
                  [0 := road_current (ps ! nat (left_neighbor (int k) (int (length ps)))) !
                          local_n (ps ! nat (left_neighbor (int k) (int (length ps))))]"
      by (simp only: lnb_def rnb_def)
  qed
  from a b c l1 l2 d show ?thesis by blast
  qed
  from e p u show ?thesis by blast
qed

theorem exchange_sub_phases_witness:
  "buffers_ok [\<lparr>local_n = 2, road_current = [0, 1, 0, 0], road_next = [0, 0, 0, 0]\<rparr>,
               \<lparr>local_n = 1, road_current = [0, 1, 0], road_next = [0, 0, 0]\<rparr>] \<and>
   populated [\<lparr>local_n = 2, road_current = [0, 1, 0, 0], road_next = [0, 0, 0, 0]\<rparr>,
              \<lparr>local_n = 1, road_current = [0, 1, 0], road_next = [0, 0, 0]\<rparr>] \<and>
   map sendbuf (exchange_borders 2 1 1) = [1, 2] \<and>
   map dest (exchange_borders 2 1 1) = [1, 1] \<and>
   exchange_all [\<lparr>local_n = 2, road_current = [0, 1, 0, 0], road_next = [0, 0, 0, 0]\<rparr>,
                 \<lparr>local_n = 1, road_current = [0, 1, 0], road_next = [0, 0, 0]\<rparr>] =
     Some [\<lparr>local_n = 2, road_current = [1, 1, 0, 1], road_next = [0, 0, 0, 0]\<rparr>,
           \<lparr>local_n = 1, road_current = [0, 1, 1], road_next = [0, 0, 0]\<rparr>]"
proof -
  have ok: "buffers_ok [\<lparr>local_n = 2, road_current = [0, 1, 0, 0], road_next = [0, 0, 0, 0]\<rparr>,
               \<lparr>local_n = 1, road_current = [0, 1, 0], road_next = [0, 0, 0]\<rparr>]"
    by (simp add: buffers_ok_def)
  have pop: "populated [\<lparr>local_n = 2, road_current = [0, 1, 0, 0], road_next = [0, 0, 0, 0]\<rparr>,
               \<lparr>local_n = 1, road_current = [0, 1, 0], road_next = [0, 0, 0]\<rparr>]"
    by (simp add: populated_def buffers_ok_def)
  have ex: "exchange_all [\<lparr>local_n = 2, road_current = [0, 1, 0, 0], road_next = [0, 0, 0, 0]\<rparr>,
                 \<lparr>local_n = 1, road_current = [0, 1, 0], road_next = [0, 0, 0]\<rparr>] =
     Some [\<lparr>local_n = 2, road_current = [1, 1, 0, 1], road_next = [0, 0, 0, 0]\<rparr>,
           \<lparr>local_n = 1, road_current = [0, 1, 1], road_next = [0, 0, 0]\<rparr>]"
    by code_simp
  from exchange_sub_phases [OF ok, of 2 1 1] ok pop ex show ?thesis by simp
qed

text \<open>
  C7 as stated has the sub-phases in the other order. For rank 1 of three processes
  with four owned cells (left neighbour 0, right neighbour 2) the first call sends
  index 1 to rank 0 and receives into index 5 from rank 2; it does not send index
  \<open>local_n = 4\<close> to the right neighbour, nor receive into index 0 from the left one.
\<close>

theorem first_sub_phase_sends_leftmost_cell:
  "exchange_borders 4 0 2 ! 0 =
     \<lparr>sendbuf = 1, dest = 0, sendtag = 0, recvbuf = 5, source = 2, recvtag = 0\<rparr> \<and>
   sendbuf (exchange_borders 4 0 2 ! 0) \<noteq> 4 \<and>
   dest (exchange_borders 4 0 2 ! 0) \<noteq> 2 \<and>
   recvbuf (exchange_borders 4 0 2 ! 0) \<noteq> 0 \<and>
   source (exchange_borders 4 0 2 ! 0) \<noteq> 0"
  by (simp add: exchange_borders_def)

section \<open>Claims about whole runs\<close>

text \<open>
  C2 at one occupied cell on two processes. The count is conserved whenever every
  process owns a cell (\<open>occupancy_conserved\<close>). With \<open>size > n\<close> the first iteration
  already runs the exchange in which rank 1 names one cell as send and as receive
  buffer: the run has no defined result, so nothing says that the one car counted
  before the loop is still there after it.
\<close>

theorem run_undefined_with_empty_segment:
  "setup_group 1 2 (lattice_draws [True] 2) =
     Some [\<lparr>local_n = 1, road_current = [0, 1, 0], road_next = [0, 0, 0]\<rparr>,
           \<lparr>local_n = 0, road_current = [0, 0], road_next = [0, 0]\<rparr>] \<and>
   total_cars [\<lparr>local_n = 1, road_current = [0, 1, 0], road_next = [0, 0, 0]\<rparr>,
               \<lparr>local_n = 0, road_current = [0, 0], road_next = [0, 0]\<rparr>] = Some 1 \<and>
   main_loop 0 1 [\<lparr>local_n = 1, road_current = [0, 1, 0], road_next = [0, 0, 0]\<rparr>,
                  \<lparr>local_n = 0, road_current = [0, 0], road_next = [0, 0]\<rparr>] = None"
  by code_simp

text \<open>
  C3 at two occupied cells, one iteration. Runs with any sizes in \<open>[1, n]\<close> agree with
  each other and with the sequential reference (\<open>partition_size_invariance\<close>). On three
  processes the third owns nothing and its calls name one cell as send and as receive
  buffer: the partitioned run has no defined result, while one process and the
  sequential reference both return the lattice unchanged (each car is blocked by the
  other).
\<close>

theorem partitioned_run_undefined_beyond_road_length:
  "partitioned_run [True, True] 1 1 [0, 0] = Some [1, 1] \<and>
   sequential_run [True, True] 1 [0, 0] = Some [1, 1] \<and>
   partitioned_run [True, True] 3 1 [0, 0] = None"
  by code_simp

text \<open>
  C9. From the ring of 8 cells with one car in cell 0, the lattice gathered after
  \<open>t\<close> iterations has its single car in cell \<open>t mod 8\<close>, for \<open>t = 0, \<dots>, 8\<close> and for 1,
  2 and 4 processes: the car advances one cell per iteration and is back at its
  start after exactly 8 iterations. The gather buffer may hold anything before.
\<close>

theorem single_car_orbit_on_8_cells:
  "list_all (\<lambda>size'. list_all (\<lambda>t.
       partitioned_run [True, False, False, False, False, False, False, False] size' t
         [a0, a1, a2, a3, a4, a5, a6, a7] =
       Some ((replicate 8 0)[nat (t mod 8) := 1]))
     [0, 1, 2, 3, 4, 5, 6, 7, 8]) [1, 2, 4]"
proof -
  have run: "partitioned_run [True, False, False, False, False, False, False, False] size' t
         [a0, a1, a2, a3, a4, a5, a6, a7] =
        Some ((ring_step ^^ nat t) [1, 0, 0, 0, 0, 0, 0, 0])"
    if "size' = 1 \<or> size' = 2 \<or> size' = 4" for size' t
    using that
      partitioned_run_ring [of size' "[True, False, False, False, False, False, False, False]"
        "[a0, a1, a2, a3, a4, a5, a6, a7]" t]
    by auto
  have r: "partitioned_run [True, False, False, False, False, False, False, False] 1 t
         [a0, a1, a2, a3, a4, a5, a6, a7] = Some ((ring_step ^^ nat t) [1, 0, 0, 0, 0, 0, 0, 0])"
    "partitioned_run [True, False, False, False, False, False, False, False] 2 t
         [a0, a1, a2, a3, a4, a5, a6, a7] = Some ((ring_step ^^ nat t) [1, 0, 0, 0, 0, 0, 0, 0])"
    "partitioned_run [True, False, False, False, False, False, False, False] 4 t
         [a0, a1, a2, a3, a4, a5, a6, a7] = Some ((ring_step ^^ nat t) [1, 0, 0, 0, 0, 0, 0, 0])"
    for t
    by (simp_all add: run)
  show ?thesis
    by (simp add: r single_car_orbit single_car_positions single_car_steps)
qed

section \<open>Claims about the program\<close>

text \<open>
  C6, as the code behaves. The program does not validate its arguments: started with
  a non-positive iteration count and a road length \<open>n \<ge> 0\<close> (zero included), with
  allocations succeeding, it prints no usage message, takes part in the initial
  all-reduce and in both barriers, runs no iteration of the main loop (so the state
  stays as initialised), prints its results, appends the CSV line (or reports that the
  file cannot be opened) and returns status 0. So does every run with a positive
  iteration count in which every process owns a cell (\<open>size \<le> n\<close>). A run with a
  positive iteration count and \<open>n < size\<close> is not rejected either: it reaches the
  exchange of a rank that owns no cell and has no defined result.
\<close>

theorem no_validation_of_arguments:
  assumes "0 \<le> n" and "1 \<le> size'"
  shows "(iterations \<le> 0 \<or> size' \<le> n \<longrightarrow>
          (\<exists>ps cars ps'.
             setup_group n size' occupied = Some ps \<and> total_cars ps = Some cars \<and>
             main_loop 0 iterations ps = Some ps' \<and> (iterations \<le> 0 \<longrightarrow> ps' = ps) \<and>
             main n iterations size' occupied True csv_ok =
               Some (0,
                     [Mpi_init, Allreduce cars, Print_header size' n iterations cars,
                      Barrier, Barrier, Print_results,
                      (if csv_ok then Append_csv n iterations size' else Csv_open_error),
                      Mpi_finalize],
                     ps'))) \<and>
         (0 < iterations \<and> n < size' \<longrightarrow>
          main n iterations size' occupied True csv_ok = None)"
proof -
  have s0: "0 < size'" using assms by simp
  from setup_group_result [OF assms(1) s0] obtain ps where
    st: "setup_group n size' occupied = Some ps" by blast
  have ok: "buffers_ok ps" by (rule setup_group_ok(1) [OF assms(1) s0 st])
  have tc: "total_cars ps = Some (sum_list (map sint (lattice ps)))"
    by (rule total_cars_lattice [OF ok])
  have a: "\<exists>ps cars ps'.
             setup_group n size' occupied = Some ps \<and> total_cars ps = Some cars \<and>
             main_loop 0 iterations ps = Some ps' \<and> (iterations \<le> 0 \<longrightarrow> ps' = ps) \<and>
             main n iterations size' occupied True csv_ok =
               Some (0,
                     [Mpi_init, Allreduce cars, Print_header size' n iterations cars,
                      Barrier, Barrier, Print_results,
                      (if csv_ok then Append_csv n iterations size' else Csv_open_error),
                      Mpi_finalize],
                     ps')"
    if c: "iterations \<le> 0 \<or> size' \<le> n"
  proof -
    have "\<exists>ps'. main_loop 0 iterations ps = Some ps'"
    proof (cases "iterations \<le> 0")
      case True
      then show ?thesis by (simp add: main_loop_no_iterations)
    next
      case False
      with c have "size' \<le> n" by simp
      then have "populated ps" using assms(2) st by (intro setup_group_populated)
      from main_loop_lattice [OF this, of 0 iterations] show ?thesis by blast
    qed
    then obtain ps' where run: "main_loop 0 iterations ps = Some ps'" by blast
    have z: "iterations \<le> 0 \<longrightarrow> ps' = ps"
      using run main_loop_no_iterations [of iterations 0 ps] by auto
    have "main n iterations size' occupied True csv_ok =
               Some (0,
                     [Mpi_init, Allreduce (sum_list (map sint (lattice ps))),
                      Print_header size' n iterations (sum_list (map sint (lattice ps))),
                      Barrier, Barrier, Print_results,
                      (if csv_ok then Append_csv n iterations size' else Csv_open_error),
                      Mpi_finalize],
                     ps')"
      by (simp add: main_def st tc run)
    with st tc run z show ?thesis by blast
  qed
  have b: "main n iterations size' occupied True csv_ok = None"
    if "0 < iterations \<and> n < size'"
    using that main_empty_segment [OF assms(1), of size' iterations occupied csv_ok] by simp
  from a b show ?thesis by blast
qed

theorem no_validation_of_arguments_witness:
  "\<exists>ps cars ps'.
           setup_group 0 2 (lattice_draws [] 2) = Some ps \<and> total_cars ps = Some cars \<and>
           main_loop 0 (- 3) ps = Some ps' \<and> ps' = ps \<and>
           main 0 (- 3) 2 (lattice_draws [] 2) True True =
             Some (0,
                   [Mpi_init, Allreduce cars, Print_header 2 0 (- 3) cars,
                    Barrier, Barrier, Print_results, Append_csv 0 (- 3) 2,
                    Mpi_finalize],
                   ps')"
  using no_validation_of_arguments [of 0 2 "- 3" "lattice_draws [] 2" True] by simp

text \<open>
  C6 as stated fails: with iteration count 0 (road length 8, two processes), and with
  road length 0 as well (one process), the run goes through the all-reduce and both
  barriers and ends with status 0; the listed outputs are all there is, and none is a
  usage message.
\<close>

theorem zero_iterations_exit_status_0:
  "main 8 0 2 (lattice_draws [True, False, True, True, False, True, False, False] 2) True True =
     Some (0,
           [Mpi_init, Allreduce 4, Print_header 2 8 0 4, Barrier, Barrier, Print_results,
            Append_csv 8 0 2, Mpi_finalize],
           [\<lparr>local_n = 4, road_current = [0, 1, 0, 1, 1, 0], road_next = [0, 0, 0, 0, 0, 0]\<rparr>,
            \<lparr>local_n = 4, road_current = [0, 0, 1, 0, 0, 0], road_next = [0, 0, 0, 0, 0, 0]\<rparr>]) \<and>
   main 0 0 1 (lattice_draws [] 1) True True =
     Some (0,
           [Mpi_init, Allreduce 0, Print_header 1 0 0 0, Barrier, Barrier, Print_results,
            Append_csv 0 0 1, Mpi_finalize],
           [\<lparr>local_n = 0, road_current = [0, 0], road_next = [0, 0]\<rparr>])"
  by code_simp

end
